theory Spec2Isabelle
  imports Complex_Main "HOL-Library.Word"
begin

section \<open>Python values used by the decoder\<close>

text \<open>
  A \<^verbatim>\<open>bytes\<close> object is a list of 8-bit words. Python integers are unbounded and are
  modelled by \<open>int\<close>; loop counters that start at 0 and only grow are \<open>nat\<close>.
  Every exception the code can raise is a value of \<open>error\<close>, and a function that can
  raise returns \<open>error + 'a\<close> with \<open>Inl\<close> for the exception.
\<close>

type_synonym byte = "8 word"

datatype error =
    ValueError string
  | StructError
  | IndexError

text \<open>\<^verbatim>\<open>data[k]\<close> on a sequence: a negative index counts from the end, anything out of
  range raises IndexError.\<close>

definition py_get :: "'a list \<Rightarrow> int \<Rightarrow> error + 'a" where
  "py_get xs k =
     (let n = int (length xs); j = (if k < 0 then n + k else k)
      in if 0 \<le> j \<and> j < n then Inr (xs ! nat j) else Inl IndexError)"

text \<open>\<^verbatim>\<open>data[a:b]\<close>: a negative bound counts from the end, both bounds are clamped to the
  sequence, and an empty or inverted range gives the empty sequence. It never raises.\<close>

definition py_clamp :: "nat \<Rightarrow> int \<Rightarrow> nat" where
  "py_clamp n k = (if k < 0 then nat (max 0 (int n + k)) else min (nat k) n)"

definition py_slice :: "'a list \<Rightarrow> int \<Rightarrow> int \<Rightarrow> 'a list" where
  "py_slice xs a b =
     (let lo = py_clamp (length xs) a; hi = py_clamp (length xs) b
      in take (hi - lo) (drop lo xs))"

text \<open>\<^verbatim>\<open>range(start, stop, step)\<close> for a positive step.\<close>

definition py_range :: "int \<Rightarrow> int \<Rightarrow> int \<Rightarrow> int list" where
  "py_range start stop step =
     map (\<lambda>k. start + step * int k) [0 ..< nat ((stop - start + step - 1) div step)]"

section \<open>dlz_decompressor.py\<close>

subsection \<open>\<^verbatim>\<open>_byte_swap\<close>\<close>

text \<open>
  The loop \<^verbatim>\<open>for i in range(0, len(data), 4)\<close> takes the slice \<^verbatim>\<open>data[i:i+4]\<close>,
  appends it reversed when it has 4 bytes and unchanged otherwise.
\<close>

fun byte_swap_loop :: "byte list \<Rightarrow> int list \<Rightarrow> byte list \<Rightarrow> byte list" where
  "byte_swap_loop data [] result = result"
| "byte_swap_loop data (i # rest) result =
     (case py_slice data i (i + 4) of
        [c0, c1, c2, c3] \<Rightarrow> byte_swap_loop data rest (result @ [c3, c2, c1, c0])
      | chunk \<Rightarrow> byte_swap_loop data rest (result @ chunk))"

definition byte_swap :: "byte list \<Rightarrow> byte list" where
  "byte_swap data = byte_swap_loop data (py_range 0 (int (length data)) 4) []"

subsection \<open>\<^verbatim>\<open>_rle_decompress\<close>\<close>

text \<open>
  The \<^verbatim>\<open>while i < length\<close> loop, with the index \<open>i\<close> and the output so far as its
  state. Each \<^verbatim>\<open>data[...]\<close> is a checked read; \<^verbatim>\<open>break\<close> returns the output.
  \<^verbatim>\<open>[value] * count\<close> is \<open>replicate\<close>.
\<close>

function rle_loop :: "byte list \<Rightarrow> nat \<Rightarrow> byte list \<Rightarrow> error + byte list" where
  "rle_loop data i result =
     (if i < length data then
        (case py_get data (int i) of
           Inl e \<Rightarrow> Inl e
         | Inr b \<Rightarrow>
             if b = 0xFF then
               (if (i + 1) + 1 \<ge> length data then Inr (result @ [b])
                else
                  (case py_get data (int (i + 1)) of
                     Inl e \<Rightarrow> Inl e
                   | Inr count \<Rightarrow>
                       (case py_get data (int (i + 1) + 1) of
                          Inl e \<Rightarrow> Inl e
                        | Inr val \<Rightarrow>
                            if count = 0
                            then rle_loop data (i + 1 + 2) (result @ [0xFF])
                            else rle_loop data (i + 1 + 2)
                                   (result @ replicate (unat count) val))))
             else rle_loop data (i + 1) (result @ [b]))
      else Inr result)"
  by pat_completeness auto
termination
  by (relation "measure (\<lambda>(data, i, result). length data - i)") auto

declare rle_loop.simps [simp del]

definition rle_decompress :: "byte list \<Rightarrow> error + byte list" where
  "rle_decompress data = rle_loop data 0 []"

subsection \<open>\<^verbatim>\<open>decompress_dlz\<close>\<close>

definition decompress_dlz :: "byte list \<Rightarrow> error + byte list" where
  "decompress_dlz dlz_data =
     (let swapped = byte_swap dlz_data in
      case rle_decompress swapped of
        Inl e \<Rightarrow> Inl e
      | Inr decompressed \<Rightarrow> Inr (byte_swap decompressed))"

section \<open>universal_dl_parser.py\<close>

subsection \<open>\<^verbatim>\<open>struct.unpack\<close> and Python floats\<close>

text \<open>
  A Python float that was read from an IEEE-754 single is a finite real, an infinity or a
  NaN; the sign of zero and the payload of a NaN are not kept, no comparison of the code
  can see them. \<^verbatim>\<open>np.nan\<close> is \<open>NaN\<close>.
\<close>

datatype pyfloat = Finite real | PosInf | NegInf | NaN

fun fl_abs :: "pyfloat \<Rightarrow> pyfloat" where
  "fl_abs (Finite r) = Finite \<bar>r\<bar>"
| "fl_abs PosInf = PosInf"
| "fl_abs NegInf = PosInf"
| "fl_abs NaN = NaN"

text \<open>\<^verbatim>\<open>a < b\<close> and \<^verbatim>\<open>a <= b\<close> on floats: every comparison with a NaN is false.\<close>

fun fl_less :: "pyfloat \<Rightarrow> pyfloat \<Rightarrow> bool" where
  "fl_less NaN _ = False"
| "fl_less _ NaN = False"
| "fl_less (Finite a) (Finite b) = (a < b)"
| "fl_less _ NegInf = False"
| "fl_less PosInf _ = False"
| "fl_less NegInf _ = True"
| "fl_less _ PosInf = True"

fun fl_le :: "pyfloat \<Rightarrow> pyfloat \<Rightarrow> bool" where
  "fl_le NaN _ = False"
| "fl_le _ NaN = False"
| "fl_le (Finite a) (Finite b) = (a \<le> b)"
| "fl_le NegInf _ = True"
| "fl_le _ PosInf = True"
| "fl_le _ NegInf = False"
| "fl_le PosInf _ = False"

text \<open>The unsigned integer that a little-endian byte string encodes.\<close>

fun le_bytes_nat :: "byte list \<Rightarrow> nat" where
  "le_bytes_nat [] = 0"
| "le_bytes_nat (b # bs) = unat b + 256 * le_bytes_nat bs"

text \<open>
  The value of the IEEE-754 single with the 32-bit pattern \<open>n\<close>: sign bit 31, exponent
  bits 30 to 23 with bias 127, fraction bits 22 to 0.
\<close>

definition f32_of_bits :: "nat \<Rightarrow> pyfloat" where
  "f32_of_bits n =
     (let sign = (n div 2 ^ 31) mod 2;
          e = (n div 2 ^ 23) mod 256;
          m = n mod 2 ^ 23;
          s = (if sign = 1 then - 1 else 1 :: real)
      in if e = 255 then (if m = 0 then (if sign = 1 then NegInf else PosInf) else NaN)
         else if e = 0 then Finite (s * real m / 2 ^ 149)
         else Finite (s * real (2 ^ 23 + m) * 2 ^ (e - 1) / 2 ^ 149))"

text \<open>\<^verbatim>\<open>struct.unpack('<I', b)[0]\<close> and \<^verbatim>\<open>struct.unpack('<f', b)[0]\<close>: both raise
  \<^verbatim>\<open>struct.error\<close> unless the buffer has exactly 4 bytes.\<close>

definition unpack_I :: "byte list \<Rightarrow> error + int" where
  "unpack_I bs = (if length bs = 4 then Inr (int (le_bytes_nat bs)) else Inl StructError)"

definition unpack_f :: "byte list \<Rightarrow> error + pyfloat" where
  "unpack_f bs = (if length bs = 4 then Inr (f32_of_bits (le_bytes_nat bs)) else Inl StructError)"

text \<open>\<^verbatim>\<open>str(k)\<close> of an integer, for the f-strings.\<close>

function decimal :: "nat \<Rightarrow> string" where
  "decimal n =
     (if n < 10 then [char_of (48 + n)] else decimal (n div 10) @ [char_of (48 + n mod 10)])"
  by pat_completeness auto
termination
  by (relation "measure (\<lambda>n. n)") auto

declare decimal.simps [simp del]

definition str_int :: "int \<Rightarrow> string" where
  "str_int k = (if k < 0 then CHR ''-'' # decimal (nat (- k)) else decimal (nat k))"

subsection \<open>Class constants and the format dictionary\<close>

definition MAGIC_V3 :: int where "MAGIC_V3 = 0x0095365F"
definition MAGIC_V5_V6 :: int where "MAGIC_V5_V6 = 0x0085F41F"
definition VERSION_V5 :: int where "VERSION_V5 = 5"
definition VERSION_V6 :: int where "VERSION_V6 = 6"
definition V6_DATA_START :: int where "V6_DATA_START = 16456"
definition V3_DATA_START_RANGE :: "int \<times> int" where "V3_DATA_START_RANGE = (1000, 5000)"

text \<open>
  The dictionary that the detectors return, one field per key. The field names are
  constants from here on, so the local variables \<^verbatim>\<open>data_start\<close>, \<^verbatim>\<open>num_rows\<close> and
  \<^verbatim>\<open>bytes_per_row\<close> of the source are written \<open>start\<close>, \<open>rows\<close> and \<open>stride\<close>.
\<close>

record descriptor =
  version :: string
  version_field :: int
  magic :: int
  floats_per_row :: int
  bytes_per_row :: int
  data_start :: int
  num_rows :: int
  interleaved :: bool

subsection \<open>\<^verbatim>\<open>_detect_v3_format\<close>\<close>

text \<open>
  The \<^verbatim>\<open>for data_start in range(...)\<close> loop; the bare \<^verbatim>\<open>except: pass\<close> turns a failed
  unpack into the next iteration, and the end of the loop into \<^verbatim>\<open>return None\<close>.
\<close>

fun detect_v3_loop :: "byte list \<Rightarrow> int \<Rightarrow> int list \<Rightarrow> descriptor option" where
  "detect_v3_loop dl_data field_08 [] = None"
| "detect_v3_loop dl_data field_08 (start # rest) =
     (let FLOATS_PER_ROW = 516;
          BYTES_PER_ROW = FLOATS_PER_ROW * 4;
          data_size = int (length dl_data) - start
      in if data_size mod BYTES_PER_ROW < 100 then
           (let rows = data_size div BYTES_PER_ROW;
                offset = start + (10 * 4)
            in case unpack_f (py_slice dl_data offset (offset + 4)) of
                 Inl e \<Rightarrow> detect_v3_loop dl_data field_08 rest
               | Inr val \<Rightarrow>
                   if fl_le (Finite 0) (fl_abs val) \<and> fl_less (fl_abs val) (Finite 50000)
                   then Some \<lparr>version = ''V3'', version_field = field_08, magic = MAGIC_V3,
                              floats_per_row = FLOATS_PER_ROW, bytes_per_row = BYTES_PER_ROW,
                              data_start = start, num_rows = rows, interleaved = False\<rparr>
                   else detect_v3_loop dl_data field_08 rest)
         else detect_v3_loop dl_data field_08 rest)"

definition detect_v3_format :: "byte list \<Rightarrow> int \<Rightarrow> descriptor option" where
  "detect_v3_format dl_data field_08 =
     detect_v3_loop dl_data field_08
       (py_range (fst V3_DATA_START_RANGE) (snd V3_DATA_START_RANGE) 100)"

subsection \<open>\<^verbatim>\<open>_detect_v5_v6_heuristic\<close>\<close>

fun detect_v5_v6_heuristic_loop :: "byte list \<Rightarrow> int \<Rightarrow> int list \<Rightarrow> descriptor option" where
  "detect_v5_v6_heuristic_loop dl_data field_08 [] = None"
| "detect_v5_v6_heuristic_loop dl_data field_08 (search_offset # rest) =
     (let FLOATS_PER_ROW = 1030;
          BYTES_PER_ROW = FLOATS_PER_ROW * 4
      in case unpack_f (py_slice dl_data search_offset (search_offset + 4)) of
           Inl e \<Rightarrow> detect_v5_v6_heuristic_loop dl_data field_08 rest
         | Inr val \<Rightarrow>
             if fl_less (Finite 300) val \<and> fl_less val (Finite 10000) then
               (let potential_data_start = search_offset - (4 * 4);
                    data_size = int (length dl_data) - potential_data_start;
                    remainder = data_size mod BYTES_PER_ROW
                in if remainder < 100 then
                     (let rows = data_size div BYTES_PER_ROW;
                          tps_offset = potential_data_start + (66 * 4)
                      in if tps_offset + 4 \<le> int (length dl_data) then
                           (case unpack_f (py_slice dl_data tps_offset (tps_offset + 4)) of
                              Inl e \<Rightarrow> detect_v5_v6_heuristic_loop dl_data field_08 rest
                            | Inr tps \<Rightarrow>
                                if fl_le (Finite 0) tps \<and> fl_le tps (Finite 100)
                                then Some \<lparr>version = (if field_08 \<ge> 4
                                                        then CHR ''V'' # str_int field_08
                                                        else ''V5/V6''),
                                           version_field = field_08, magic = MAGIC_V5_V6,
                                           floats_per_row = FLOATS_PER_ROW,
                                           bytes_per_row = BYTES_PER_ROW,
                                           data_start = potential_data_start,
                                           num_rows = rows, interleaved = True\<rparr>
                                else detect_v5_v6_heuristic_loop dl_data field_08 rest)
                         else detect_v5_v6_heuristic_loop dl_data field_08 rest)
                   else detect_v5_v6_heuristic_loop dl_data field_08 rest)
             else detect_v5_v6_heuristic_loop dl_data field_08 rest)"

definition detect_v5_v6_heuristic :: "byte list \<Rightarrow> int \<Rightarrow> descriptor option" where
  "detect_v5_v6_heuristic dl_data field_08 =
     detect_v5_v6_heuristic_loop dl_data field_08 (py_range 15000 18000 4)"

subsection \<open>\<^verbatim>\<open>_detect_v5_v6_format\<close>\<close>

text \<open>
  The version 6 branch returns the dictionary only under its structure check and falls off
  the end of the function (\<^verbatim>\<open>None\<close>) otherwise; the version 5 branch raises ValueError.
\<close>

definition v5_message :: "int \<Rightarrow> string" where
  "v5_message field_08 =
     ''V5 format detected (field_08='' @ str_int field_08 @ ''). '' @
     ''V5 files use sparse storage and cannot be parsed directly. '' @
     ''Please open this file in Holley EFI software first - it will '' @
     ''automatically convert to V6 format (.V6.dl) which can be parsed.''"

definition detect_v5_v6_format :: "byte list \<Rightarrow> int \<Rightarrow> error + descriptor option" where
  "detect_v5_v6_format dl_data field_08 =
     (let FLOATS_PER_ROW = 1030;
          BYTES_PER_ROW = FLOATS_PER_ROW * 4
      in if field_08 = VERSION_V6 then
           (let start = V6_DATA_START;
                data_size = int (length dl_data) - start;
                rows = data_size div BYTES_PER_ROW;
                remainder = data_size mod BYTES_PER_ROW
            in if rows > 0 \<and> remainder < 100
               then Inr (Some \<lparr>version = ''V6'', version_field = field_08, magic = MAGIC_V5_V6,
                                floats_per_row = FLOATS_PER_ROW, bytes_per_row = BYTES_PER_ROW,
                                data_start = start, num_rows = rows, interleaved = True\<rparr>)
               else Inr None)
         else if field_08 = VERSION_V5 then Inl (ValueError (v5_message field_08))
         else Inr (detect_v5_v6_heuristic dl_data field_08))"

subsection \<open>\<^verbatim>\<open>detect_format\<close> and \<^verbatim>\<open>__init__\<close>\<close>

definition detect_format :: "byte list \<Rightarrow> error + descriptor option" where
  "detect_format dl_data =
     (if length dl_data < 32 then Inr None
      else case unpack_I (py_slice dl_data 0 4) of
             Inl e \<Rightarrow> Inl e
           | Inr mg \<Rightarrow>
               (case unpack_I (py_slice dl_data 8 12) of
                  Inl e \<Rightarrow> Inl e
                | Inr field_08 \<Rightarrow>
                    if mg = MAGIC_V3 then Inr (detect_v3_format dl_data field_08)
                    else if mg = MAGIC_V5_V6 then detect_v5_v6_format dl_data field_08
                    else Inr None))"

text \<open>
  The parser object: the file's name (\<^verbatim>\<open>dl_path.name\<close>), its bytes and the detected
  format. The constructor receives the bytes that \<^verbatim>\<open>f.read()\<close> returned and raises
  ValueError when detection returned \<^verbatim>\<open>None\<close>; an exception of detection passes through.
\<close>

record parser =
  dl_path_name :: string
  dl_data :: "byte list"
  format_info :: "descriptor option"

definition init :: "string \<Rightarrow> byte list \<Rightarrow> error + parser" where
  "init name bytes =
     (case detect_format bytes of
        Inl e \<Rightarrow> Inl e
      | Inr None \<Rightarrow> Inl (ValueError (''Unknown DL format: '' @ name))
      | Inr (Some d) \<Rightarrow>
          Inr \<lparr>dl_path_name = name, dl_data = bytes, format_info = Some d\<rparr>)"

subsection \<open>\<^verbatim>\<open>parse\<close>, \<^verbatim>\<open>_parse_interleaved\<close> and \<^verbatim>\<open>_parse_non_interleaved\<close>\<close>

text \<open>A \<^verbatim>\<open>for\<close> loop that appends one result per element and stops at the first
  exception.\<close>

fun for_each :: "('a \<Rightarrow> error + 'b) \<Rightarrow> 'a list \<Rightarrow> error + 'b list" where
  "for_each f [] = Inr []"
| "for_each f (x # xs) =
     (case f x of
        Inl e \<Rightarrow> Inl e
      | Inr y \<Rightarrow> (case for_each f xs of Inl e \<Rightarrow> Inl e | Inr ys \<Rightarrow> Inr (y # ys)))"

text \<open>
  \<^verbatim>\<open>data_dict\<close> maps the column name \<^verbatim>\<open>f'Param_{col_idx:03d}'\<close> to the column's list of
  values. The name is a one-to-one rendering of the column index, so the dictionary is
  kept as an association list from the column index to the column, in insertion order.
  \<^verbatim>\<open>pd.DataFrame(data_dict)\<close> holds these columns, all of one length, as they are.
\<close>

type_synonym table = "(int \<times> pyfloat list) list"

definition parse_non_interleaved :: "byte list \<Rightarrow> int \<Rightarrow> int \<Rightarrow> int \<Rightarrow> error + table" where
  "parse_non_interleaved data start stride rows =
     (let per_row = stride div 4
      in for_each
           (\<lambda>col_idx.
              case for_each
                     (\<lambda>row_idx.
                        let row_offset = start + (row_idx * stride);
                            col_offset = col_idx * 4;
                            offset = row_offset + col_offset
                        in if offset + 4 \<le> int (length data)
                           then unpack_f (py_slice data offset (offset + 4))
                           else Inr NaN)
                     (py_range 0 rows 1) of
                Inl e \<Rightarrow> Inl e
              | Inr col_data \<Rightarrow> Inr (col_idx, col_data))
           (py_range 0 per_row 1))"

definition parse_interleaved :: "byte list \<Rightarrow> int \<Rightarrow> int \<Rightarrow> int \<Rightarrow> error + table" where
  "parse_interleaved data start stride rows =
     (let num_columns = 516
      in for_each
           (\<lambda>csv_col_idx.
              let dl_position = csv_col_idx * 2
              in case for_each
                        (\<lambda>row_idx.
                           let row_offset = start + (row_idx * stride);
                               col_offset = dl_position * 4;
                               offset = row_offset + col_offset
                           in if offset + 4 \<le> int (length data)
                              then unpack_f (py_slice data offset (offset + 4))
                              else Inr NaN)
                        (py_range 0 rows 1) of
                   Inl e \<Rightarrow> Inl e
                 | Inr col_data \<Rightarrow> Inr (csv_col_idx, col_data))
           (py_range 0 num_columns 1))"

definition parse :: "parser \<Rightarrow> error + table" where
  "parse self =
     (case format_info self of
        None \<Rightarrow> Inl (ValueError ''Cannot parse: Unknown format'')
      | Some d \<Rightarrow>
          if interleaved d
          then parse_interleaved (dl_data self) (data_start d) (bytes_per_row d) (num_rows d)
          else parse_non_interleaved (dl_data self) (data_start d) (bytes_per_row d)
                 (num_rows d))"

text \<open>The body of \<^verbatim>\<open>main\<close> without its printing: construct the parser, then parse.\<close>

definition main_parse :: "string \<Rightarrow> byte list \<Rightarrow> error + table" where
  "main_parse name bytes =
     (case init name bytes of Inl e \<Rightarrow> Inl e | Inr p \<Rightarrow> parse p)"

section \<open>Reference definitions\<close>

subsection \<open>The two transforms of the decompressor\<close>

text \<open>The byte swap, by groups: a full group of four is reversed, a shorter tail is kept.\<close>

fun swap_groups :: "'a list \<Rightarrow> 'a list" where
  "swap_groups (a # b # c # d # rest) = d # c # b # a # swap_groups rest"
| "swap_groups tail = tail"

text \<open>
  The run-length decoding as the format describes it, scanning left to right: a byte other
  than the marker \<open>0xFF\<close> is copied; a marker followed by at least two bytes opens the
  group \<open>0xFF, COUNT, VALUE\<close>, which gives one \<open>0xFF\<close> when \<open>COUNT = 0\<close> and
  \<open>VALUE\<close> repeated \<open>COUNT\<close> times otherwise; a marker with fewer than two bytes after
  it is emitted alone and ends the scan.
\<close>

fun rle_reference :: "byte list \<Rightarrow> byte list" where
  "rle_reference [] = []"
| "rle_reference (b # count # val # rest) =
     (if b = 0xFF
      then (if count = 0 then [0xFF] else replicate (unat count) val) @ rle_reference rest
      else b # rle_reference (count # val # rest))"
| "rle_reference (b # rest) =
     (if b = 0xFF then [0xFF] else b # rle_reference rest)"

subsection \<open>Header fields and samples, by position\<close>

text \<open>The 4-byte little-endian unsigned integer at byte offset \<open>off\<close> of a buffer, and
  the IEEE-754 single at that offset.\<close>

definition le_u32_at :: "byte list \<Rightarrow> nat \<Rightarrow> nat" where
  "le_u32_at buf off =
     unat (buf ! off) + 256 * unat (buf ! (off + 1)) + 65536 * unat (buf ! (off + 2))
       + 16777216 * unat (buf ! (off + 3))"

definition le_f32_at :: "byte list \<Rightarrow> nat \<Rightarrow> pyfloat" where
  "le_f32_at buf off = f32_of_bits (le_u32_at buf off)"

subsection \<open>The scan for the data start of the legacy format\<close>

text \<open>
  The candidates of the scan window are the offsets from 1000 up to, not including, 5000 in
  steps of 100. A candidate passes when the bytes after it are a whole number of rows of
  \<open>516 * 4\<close> bytes up to a remainder below 100, and the float at position 10 of its first
  row is in the buffer and has a magnitude below 50000.
\<close>

definition v3_window :: "int \<Rightarrow> bool" where
  "v3_window s = (1000 \<le> s \<and> s < 5000 \<and> s mod 100 = 0)"

definition plausible_sensor :: "pyfloat \<Rightarrow> bool" where
  "plausible_sensor v = (case v of Finite r \<Rightarrow> \<bar>r\<bar> < 50000 | _ \<Rightarrow> False)"

definition v3_candidate_ok :: "byte list \<Rightarrow> int \<Rightarrow> bool" where
  "v3_candidate_ok buf s =
     ((int (length buf) - s) mod (516 * 4) < 100 \<and>
      s + 10 * 4 + 4 \<le> int (length buf) \<and>
      plausible_sensor (le_f32_at buf (nat (s + 10 * 4))))"

text \<open>The dictionary that the legacy detector returns for the data start \<open>s\<close>.\<close>

definition v3_descriptor :: "byte list \<Rightarrow> int \<Rightarrow> int \<Rightarrow> descriptor" where
  "v3_descriptor buf f s =
     \<lparr>version = ''V3'', version_field = f, magic = MAGIC_V3, floats_per_row = 516,
      bytes_per_row = 516 * 4, data_start = s,
      num_rows = (int (length buf) - s) div (516 * 4), interleaved = False\<rparr>"

subsection \<open>The cells of the decoded table\<close>

text \<open>
  The byte offset of the cell in row \<open>r\<close> and channel slot \<open>c\<close>, the number of channel
  slots, and the value the cell has: missing (\<^verbatim>\<open>np.nan\<close>) when the four bytes at the
  offset do not lie inside the buffer, the single stored there otherwise.
\<close>

definition cell_offset :: "descriptor \<Rightarrow> int \<Rightarrow> int \<Rightarrow> int" where
  "cell_offset d r c =
     data_start d + r * bytes_per_row d + (if interleaved d then c * 2 else c) * 4"

definition slot_count :: "descriptor \<Rightarrow> int" where
  "slot_count d = (if interleaved d then 516 else floats_per_row d)"

definition cell_missing :: "byte list \<Rightarrow> descriptor \<Rightarrow> int \<Rightarrow> int \<Rightarrow> bool" where
  "cell_missing buf d r c = (cell_offset d r c + 4 > int (length buf))"

definition expected_cell :: "byte list \<Rightarrow> descriptor \<Rightarrow> int \<Rightarrow> int \<Rightarrow> pyfloat" where
  "expected_cell buf d r c =
     (if cell_missing buf d r c then NaN else le_f32_at buf (nat (cell_offset d r c)))"

text \<open>
  The value of the cell whose four bytes start at byte offset \<open>off\<close>.
\<close>

definition cell_value :: "byte list \<Rightarrow> int \<Rightarrow> pyfloat" where
  "cell_value data off = (if off + 4 > int (length data) then NaN else le_f32_at data (nat off))"

subsection \<open>A sample file\<close>

text \<open>
  A version 6 file with two rows after the data start 16456: row 0 holds 2500.0 in its
  first float and 37.5 in its third (channel slot 1), row 1 holds 37.5 in its first float;
  every other byte after the header is zero. With it, the dictionary that detection
  returns for this file and the parser object the constructor builds.
\<close>

definition sample_v6_file :: "byte list" where
  "sample_v6_file =
     [0x1F, 0xF4, 0x85, 0x00, 0, 0, 0, 0, 6, 0, 0, 0] @ replicate 16444 0 @
     ([0x00, 0x40, 0x1C, 0x45, 0, 0, 0, 0, 0x00, 0x00, 0x16, 0x42] @ replicate 4108 0) @
     ([0x00, 0x00, 0x16, 0x42] @ replicate 4116 0)"

definition sample_v6_format :: descriptor where
  "sample_v6_format =
     \<lparr>version = ''V6'', version_field = 6, magic = MAGIC_V5_V6, floats_per_row = 1030,
      bytes_per_row = 1030 * 4, data_start = 16456, num_rows = 2, interleaved = True\<rparr>"

definition sample_v6_parser :: parser where
  "sample_v6_parser =
     \<lparr>dl_path_name = ''run.dl'', dl_data = sample_v6_file, format_info = Some sample_v6_format\<rparr>"

section \<open>The byte swap is the group reversal\<close>

lemma py_slice_chunk:
  "py_slice xs (int i) (int i + 4) = take 4 (drop i xs)"
proof -
  have "nat (int i + 4) = i + 4" by linarith
  then show ?thesis by (auto simp: py_slice_def py_clamp_def Let_def min_def)
qed

lemma length4E: "length xs = 4 \<Longrightarrow> \<exists>a b c d. xs = [a, b, c, d]"
  by (auto simp: eval_nat_numeral length_Suc_conv)

lemma py_range_0_4: "py_range 0 (int n) 4 = map (\<lambda>k. int (4 * k)) [0 ..< (n + 3) div 4]"
proof -
  have "(int n + 3) div 4 = int ((n + 3) div 4)" by (simp add: zdiv_int)
  then have "nat ((int n - 0 + 4 - 1) div 4) = (n + 3) div 4" by simp
  then show ?thesis by (simp add: py_range_def)
qed

lemma swap_groups_short: "length xs < 4 \<Longrightarrow> swap_groups xs = xs"
  by (induction xs rule: swap_groups.induct) auto

lemma byte_swap_loop_short:
  "length (py_slice data i (i + 4)) \<noteq> 4 \<Longrightarrow>
   byte_swap_loop data (i # rest) res = byte_swap_loop data rest (res @ py_slice data i (i + 4))"
  by (auto split: list.splits)

lemma byte_swap_loop_groups:
  "m = (length data + 3) div 4 \<Longrightarrow>
   byte_swap_loop data (map (\<lambda>k. int (4 * k)) [j ..< m]) res = res @ swap_groups (drop (4 * j) data)"
proof (induction "m - j" arbitrary: j res)
  case 0
  then have "length data \<le> 4 * j" by linarith
  with 0 show ?case by simp
next
  case (Suc d)
  then have jm: "j < m" by linarith
  then have range: "[j ..< m] = j # [Suc j ..< m]" by (simp add: upt_conv_Cons)
  have IH: "byte_swap_loop data (map (\<lambda>k. int (4 * k)) [Suc j ..< m]) r = r @ swap_groups (drop (4 * Suc j) data)" for r
    using Suc by simp
  show ?case
  proof (cases "4 * j + 4 \<le> length data")
    case True
    then obtain c0 c1 c2 c3 where tk: "take 4 (drop (4 * j) data) = [c0, c1, c2, c3]"
      using length4E [of "take 4 (drop (4 * j) data)"] by auto
    have "drop (4 * j) data = take 4 (drop (4 * j) data) @ drop 4 (drop (4 * j) data)"
      by (rule append_take_drop_id [symmetric])
    then have dr: "drop (4 * j) data = c0 # c1 # c2 # c3 # drop (4 * Suc j) data"
      by (simp add: tk add.commute)
    show ?thesis
      using IH tk dr by (simp add: range py_slice_chunk [of data "4 * j", simplified])
  next
    case False
    let ?ch = "drop (4 * j) data"
    have short: "length ?ch < 4" using False by simp
    then have tk: "take 4 ?ch = ?ch" by simp
    have last: "m \<le> Suc j" using False Suc.prems by linarith
    then have emp: "[Suc j ..< m] = []" by simp
    have sl: "py_slice data (int (4 * j)) (int (4 * j) + 4) = ?ch"
      using tk by (simp only: py_slice_chunk)
    have ne: "length (py_slice data (int (4 * j)) (int (4 * j) + 4)) \<noteq> 4"
      using short unfolding sl by linarith
    have "byte_swap_loop data (int (4 * j) # []) res = res @ ?ch"
      unfolding byte_swap_loop_short [OF ne] sl by simp
    then have "byte_swap_loop data (map (\<lambda>k. int (4 * k)) [j ..< m]) res = res @ ?ch"
      by (simp only: range emp list.map)
    then show ?thesis using short by (simp add: swap_groups_short)
  qed
qed

lemma byte_swap_groups: "byte_swap data = swap_groups data"
  using byte_swap_loop_groups [of "(length data + 3) div 4" data 0 "[]"]
  by (simp add: byte_swap_def py_range_0_4)

lemma swap_groups_invol: "swap_groups (swap_groups xs) = xs"
  by (induction xs rule: swap_groups.induct) auto

lemma length_swap_groups: "length (swap_groups xs) = length xs"
  by (induction xs rule: swap_groups.induct) auto

lemma swap_groups_nth:
  "i < length xs \<Longrightarrow>
   swap_groups xs ! i =
     (if 4 * (i div 4) + 4 \<le> length xs then xs ! (4 * (i div 4) + (3 - i mod 4)) else xs ! i)"
proof (induction xs arbitrary: i rule: swap_groups.induct)
  case (1 a b c d rest)
  show ?case
  proof (cases "i < 4")
    case True
    then consider "i = 0" | "i = 1" | "i = 2" | "i = 3" by linarith
    then show ?thesis by cases simp_all
  next
    case False
    define k where "k = i - 4"
    have i: "i = k + 4" using False by (simp add: k_def)
    have k: "k < length rest" using "1.prems" i by simp
    have nth_shift: "(a # b # c # d # ys) ! (n + 4) = ys ! n" for ys :: "'a list" and n
      by (simp add: numeral_eq_Suc)
    have dv: "(k + 4) div 4 = k div 4 + 1" and md: "(k + 4) mod 4 = k mod 4" by simp_all
    have idx: "4 * (k div 4 + 1) + (3 - k mod 4) = (4 * (k div 4) + (3 - k mod 4)) + 4" by simp
    show ?thesis
      unfolding i swap_groups.simps nth_shift dv md idx
      using "1.IH" [OF k] by simp
  qed
qed simp_all

section \<open>The run-length loop computes the reference decoding\<close>

lemma py_get_nat: "k < length xs \<Longrightarrow> py_get xs (int k) = Inr (xs ! k)"
  by (simp add: py_get_def)

lemma rle_reference_copy: "b \<noteq> 0xFF \<Longrightarrow> rle_reference (b # rest) = b # rle_reference rest"
  by (cases "b # rest" rule: rle_reference.cases) auto

lemma rle_reference_truncated: "length rest < 2 \<Longrightarrow> rle_reference (0xFF # rest) = [0xFF]"
  by (cases "0xFF # rest" rule: rle_reference.cases) auto

lemma rle_reference_group:
  "rle_reference (0xFF # count # val # rest) =
     (if count = 0 then [0xFF] else replicate (unat count) val) @ rle_reference rest"
  by simp

lemma rle_loop_reference:
  "rle_loop data i res = Inr (res @ rle_reference (drop i data))"
proof (induction data i res rule: rle_loop.induct)
  case (1 data i result)
  show ?case
  proof (cases "i < length data")
    case False
    then show ?thesis by (subst rle_loop.simps) simp
  next
    case inb: True
    define b where "b = data ! i"
    have g0: "py_get data (int i) = Inr b" using inb by (simp add: py_get_nat b_def)
    have d0: "drop i data = b # drop (Suc i) data"
      using inb by (simp add: Cons_nth_drop_Suc b_def)
    show ?thesis
    proof (cases "b = 0xFF")
      case False
      have "rle_loop data i result = rle_loop data (i + 1) (result @ [b])"
        using inb g0 False by (subst rle_loop.simps) simp
      also have "\<dots> = Inr ((result @ [b]) @ rle_reference (drop (i + 1) data))"
        using "1.IH"(3) [OF inb g0 False] .
      finally show ?thesis using False by (simp add: d0 rle_reference_copy)
    next
      case marker: True
      show ?thesis
      proof (cases "length data \<le> i + 1 + 1")
        case True
        then have "length (drop (Suc i) data) < 2" using inb by simp
        then have "rle_reference (drop i data) = [0xFF]"
          using marker by (simp add: d0 rle_reference_truncated)
        moreover have "rle_loop data i result = Inr (result @ [b])"
          using inb g0 marker True by (subst rle_loop.simps) simp
        ultimately show ?thesis using marker by simp
      next
        case long: False
        define count where "count = data ! (i + 1)"
        define val where "val = data ! (i + 2)"
        have g1: "py_get data (int (i + 1)) = Inr count"
          using long py_get_nat [of "Suc i" data] by (simp add: count_def add.commute)
        have g2: "py_get data (int (i + 1) + 1) = Inr val"
          using long py_get_nat [of "Suc (Suc i)" data] by (simp add: val_def add.commute)
        have d1: "drop (Suc i) data = count # val # drop (i + 1 + 2) data"
          using long by (simp add: Cons_nth_drop_Suc [symmetric] count_def val_def numeral_2_eq_2)
        show ?thesis
        proof (cases "count = 0")
          case True
          have "rle_loop data i result = rle_loop data (i + 1 + 2) (result @ [0xFF])"
            using inb g0 marker long g1 g2 True by (subst rle_loop.simps) simp
          also have "\<dots> = Inr ((result @ [0xFF]) @ rle_reference (drop (i + 1 + 2) data))"
            using "1.IH"(1) [OF inb g0 marker long g1 g2 True] .
          finally show ?thesis using marker True by (simp add: d0 d1)
        next
          case False
          have "rle_loop data i result =
                rle_loop data (i + 1 + 2) (result @ replicate (unat count) val)"
            using inb g0 marker long g1 g2 False by (subst rle_loop.simps) simp
          also have "\<dots> = Inr ((result @ replicate (unat count) val) @
                               rle_reference (drop (i + 1 + 2) data))"
            using "1.IH"(2) [OF inb g0 marker long g1 g2 False] .
          finally show ?thesis using marker False by (simp add: d0 d1)
        qed
      qed
    qed
  qed
qed

lemma rle_decompress_reference: "rle_decompress data = Inr (rle_reference data)"
  by (simp add: rle_decompress_def rle_loop_reference)

lemma rle_reference_marker_free: "0xFF \<notin> set xs \<Longrightarrow> rle_reference xs = xs"
  by (induction xs) (auto simp: rle_reference_copy)

section \<open>Reading the header\<close>

lemma take4_nth: "4 \<le> length ys \<Longrightarrow> take 4 ys = [ys ! 0, ys ! 1, ys ! 2, ys ! 3]"
  by (auto simp: numeral_eq_Suc Suc_le_length_iff)

lemma py_slice_nth4:
  "off + 4 \<le> length xs \<Longrightarrow>
   py_slice xs (int off) (int off + 4) = [xs ! off, xs ! (off + 1), xs ! (off + 2), xs ! (off + 3)]"
  by (simp add: py_slice_chunk take4_nth)

lemma py_slice_short:
  "length xs < off + 4 \<Longrightarrow> length (py_slice xs (int off) (int off + 4)) < 4"
  by (simp add: py_slice_chunk)

lemma unpack_I_at:
  "off + 4 \<le> length xs \<Longrightarrow> unpack_I (py_slice xs (int off) (int off + 4)) = Inr (int (le_u32_at xs off))"
  by (simp add: py_slice_nth4 unpack_I_def le_u32_at_def)

lemma unpack_f_at:
  "off + 4 \<le> length xs \<Longrightarrow> unpack_f (py_slice xs (int off) (int off + 4)) = Inr (le_f32_at xs off)"
  by (simp add: py_slice_nth4 unpack_f_def le_f32_at_def le_u32_at_def add.assoc)

lemma unpack_f_short:
  "length xs < off + 4 \<Longrightarrow> unpack_f (py_slice xs (int off) (int off + 4)) = Inl StructError"
  using py_slice_short [of xs off] by (simp add: unpack_f_def)

lemma detect_format_header:
  assumes "32 \<le> length buf"
  shows "detect_format buf =
     (if int (le_u32_at buf 0) = MAGIC_V3 then Inr (detect_v3_format buf (int (le_u32_at buf 8)))
      else if int (le_u32_at buf 0) = MAGIC_V5_V6 then detect_v5_v6_format buf (int (le_u32_at buf 8))
      else Inr None)"
proof -
  have m: "unpack_I (py_slice buf 0 4) = Inr (int (le_u32_at buf 0))"
    using unpack_I_at [of 0 buf] assms by simp
  have v: "unpack_I (py_slice buf 8 12) = Inr (int (le_u32_at buf 8))"
    using unpack_I_at [of 8 buf] assms by simp
  show ?thesis using assms by (simp add: detect_format_def m v)
qed

lemma detect_format_short: "length buf < 32 \<Longrightarrow> detect_format buf = Inr None"
  by (simp add: detect_format_def)

lemma v5_message_not_unknown: "v5_message k \<noteq> ''Unknown DL format: '' @ nm"
  by (simp add: v5_message_def)

section \<open>The scan of the legacy detector\<close>

lemma plausible_sensor_check:
  "(fl_le (Finite 0) (fl_abs v) \<and> fl_less (fl_abs v) (Finite 50000)) = plausible_sensor v"
  by (cases v) (simp_all add: plausible_sensor_def)

lemma detect_v3_loop_step:
  assumes "0 \<le> s"
  shows "detect_v3_loop buf f (s # rest) =
     (if v3_candidate_ok buf s then Some (v3_descriptor buf f s) else detect_v3_loop buf f rest)"
proof (cases "s + 10 * 4 + 4 \<le> int (length buf)")
  case True
  define off where "off = nat (s + 10 * 4)"
  have o: "int off = s + 10 * 4" using assms by (simp add: off_def)
  have "off + 4 \<le> length buf" using True o by linarith
  then have "unpack_f (py_slice buf (int off) (int off + 4)) = Inr (le_f32_at buf off)"
    by (rule unpack_f_at)
  then have u: "unpack_f (py_slice buf (s + 10 * 4) (s + 10 * 4 + 4)) = Inr (le_f32_at buf off)"
    by (simp only: o)
  show ?thesis
    using True u
    by (simp add: Let_def v3_candidate_ok_def v3_descriptor_def plausible_sensor_check off_def)
next
  case False
  define off where "off = nat (s + 10 * 4)"
  have o: "int off = s + 10 * 4" using assms by (simp add: off_def)
  have "length buf < off + 4" using False o by linarith
  then have "unpack_f (py_slice buf (int off) (int off + 4)) = Inl StructError"
    by (rule unpack_f_short)
  then have u: "unpack_f (py_slice buf (s + 10 * 4) (s + 10 * 4 + 4)) = Inl StructError"
    by (simp only: o)
  show ?thesis
    using False u by (simp add: Let_def v3_candidate_ok_def)
qed

lemma detect_v3_loop_first:
  assumes "\<forall>s \<in> set cs. 0 \<le> s" and "sorted cs"
  shows "case detect_v3_loop buf f cs of
           None \<Rightarrow> \<forall>s \<in> set cs. \<not> v3_candidate_ok buf s
         | Some d \<Rightarrow> d = v3_descriptor buf f (data_start d) \<and> data_start d \<in> set cs \<and>
                     v3_candidate_ok buf (data_start d) \<and>
                     (\<forall>s \<in> set cs. v3_candidate_ok buf s \<longrightarrow> data_start d \<le> s)"
  using assms
proof (induction cs)
  case Nil
  then show ?case by simp
next
  case (Cons c cs)
  have step: "detect_v3_loop buf f (c # cs) =
     (if v3_candidate_ok buf c then Some (v3_descriptor buf f c) else detect_v3_loop buf f cs)"
    using Cons.prems(1) by (intro detect_v3_loop_step) simp
  show ?case
  proof (cases "v3_candidate_ok buf c")
    case True
    then have "detect_v3_loop buf f (c # cs) = Some (v3_descriptor buf f c)"
      by (simp only: step if_True)
    then show ?thesis
      using True Cons.prems(2) by (auto simp: v3_descriptor_def simp del: detect_v3_loop.simps)
  next
    case False
    have IH: "case detect_v3_loop buf f cs of
           None \<Rightarrow> \<forall>s \<in> set cs. \<not> v3_candidate_ok buf s
         | Some d \<Rightarrow> d = v3_descriptor buf f (data_start d) \<and> data_start d \<in> set cs \<and>
                     v3_candidate_ok buf (data_start d) \<and>
                     (\<forall>s \<in> set cs. v3_candidate_ok buf s \<longrightarrow> data_start d \<le> s)"
      using Cons by simp
    have eq: "detect_v3_loop buf f (c # cs) = detect_v3_loop buf f cs"
      using False by (simp only: step if_False)
    show ?thesis
      unfolding eq using False IH by (auto split: option.splits)
  qed
qed

lemma py_range_steps:
  "0 < step \<Longrightarrow> (stop - start) mod step = 0 \<Longrightarrow> start \<le> stop \<Longrightarrow>
   set (py_range start stop step) = {s. start \<le> s \<and> s < stop \<and> (s - start) mod step = 0}"
proof (intro set_eqI iffI)
  fix s
  assume pos: "0 < step" and dv: "(stop - start) mod step = 0" and le: "start \<le> stop"
  define n where "n = nat ((stop - start + step - 1) div step)"
  define q where "q = (stop - start) div step"
  have qs: "stop - start = step * q" using dv by (auto simp: q_def)
  have "(step - 1 + q * step) div step = q + (step - 1) div step"
    using pos by (intro div_mult_self1) simp
  moreover have "(step - 1) div step = 0" using pos by (intro div_pos_pos_trivial) simp_all
  ultimately have "(step - 1 + q * step) div step = q" by linarith
  moreover have "stop - start + step - 1 = step - 1 + q * step" using qs by (simp add: mult.commute)
  ultimately have "(stop - start + step - 1) div step = q" by (simp only:)
  moreover have "0 \<le> q" using le pos by (simp add: q_def pos_imp_zdiv_nonneg_iff)
  ultimately have n: "stop - start = step * int n"
    using qs by (simp add: n_def)
  {
    assume "s \<in> set (py_range start stop step)"
    then obtain k where k: "k < n" "s = start + step * int k"
      unfolding py_range_def n_def set_map set_upt by auto
    have lt: "step * int k < step * int n" using k(1) pos by simp
    have ge: "0 \<le> step * int k" using pos by simp
    have a: "start \<le> s" using k(2) ge by linarith
    have b: "s < stop" using k(2) lt n by linarith
    have c: "(s - start) mod step = 0" using k(2) by simp
    from a b c show "s \<in> {s. start \<le> s \<and> s < stop \<and> (s - start) mod step = 0}"
      by simp
  }
  {
    assume "s \<in> {s. start \<le> s \<and> s < stop \<and> (s - start) mod step = 0}"
    then have s: "start \<le> s" "s < stop" "(s - start) mod step = 0" by simp_all
    define k where "k = nat ((s - start) div step)"
    have e: "s - start = step * ((s - start) div step)" using s(3) by auto
    have nn: "0 \<le> (s - start) div step" using s(1) pos by (simp add: pos_imp_zdiv_nonneg_iff)
    have "step * ((s - start) div step) < step * int n" using e n s(2) by linarith
    then have "(s - start) div step < int n" using pos by simp
    then have kn: "k < n" using nn by (simp add: k_def)
    have sk: "s = start + step * int k" using e nn by (simp add: k_def)
    have "s \<in> (\<lambda>k. start + step * int k) ` {0 ..< n}"
      using kn sk by (intro image_eqI [of _ _ k]) simp_all
    then show "s \<in> set (py_range start stop step)"
      unfolding py_range_def n_def set_map set_upt .
  }
qed

lemma py_range_sorted: "0 < step \<Longrightarrow> sorted (py_range start stop step)"
  unfolding py_range_def sorted_map sorted_wrt_iff_nth_less
  by (simp del: upt_rec_numeral)

lemma v3_range_set:
  "s \<in> set (py_range (fst V3_DATA_START_RANGE) (snd V3_DATA_START_RANGE) 100) \<longleftrightarrow> v3_window s"
proof -
  have "set (py_range 1000 5000 100) = {s. 1000 \<le> s \<and> s < 5000 \<and> (s - 1000) mod 100 = 0}"
    by (rule py_range_steps) simp_all
  moreover have "(s - 1000) mod 100 = 0 \<longleftrightarrow> s mod 100 = 0" by presburger
  ultimately show ?thesis by (simp add: V3_DATA_START_RANGE_def v3_window_def)
qed

section \<open>The decoded table\<close>

lemma py_range_0_1: "py_range 0 n 1 = map int [0 ..< nat n]"
  by (simp add: py_range_def)

lemma py_range_0_1_nonneg: "x \<in> set (py_range 0 n 1) \<Longrightarrow> 0 \<le> x"
  by (auto simp: py_range_0_1)

lemma py_range_0_1_mem: "0 \<le> x \<Longrightarrow> x < n \<Longrightarrow> x \<in> set (py_range 0 n 1)"
proof -
  assume "0 \<le> x" "x < n"
  then have "nat x < nat n" "x = int (nat x)" by simp_all
  then have "x \<in> int ` {0 ..< nat n}" by (intro image_eqI [of _ _ "nat x"]) simp_all
  then show ?thesis by (simp only: py_range_0_1 set_map set_upt)
qed

lemma py_range_0_1_nth: "0 \<le> x \<Longrightarrow> x < n \<Longrightarrow> py_range 0 n 1 ! nat x = x"
  by (simp add: py_range_0_1)

lemma length_py_range_0_1: "length (py_range 0 n 1) = nat n"
  by (simp add: py_range_0_1)

lemma for_each_total:
  "(\<And>x. x \<in> set xs \<Longrightarrow> f x = Inr (g x)) \<Longrightarrow> for_each f xs = Inr (map g xs)"
  by (induction xs) simp_all

lemma map_of_indexed: "c \<in> set cs \<Longrightarrow> map_of (map (\<lambda>c. (c, h c)) cs) c = Some (h c)"
  by (induction cs) auto

lemma read_cell:
  assumes "0 \<le> off"
  shows "(if off + 4 \<le> int (length data) then unpack_f (py_slice data off (off + 4)) else Inr NaN)
         = Inr (cell_value data off)"
proof (cases "off + 4 \<le> int (length data)")
  case True
  have o: "int (nat off) = off" using assms by simp
  have "nat off + 4 \<le> length data" using True assms by linarith
  then have "unpack_f (py_slice data (int (nat off)) (int (nat off) + 4)) = Inr (le_f32_at data (nat off))"
    by (rule unpack_f_at)
  then have "unpack_f (py_slice data off (off + 4)) = Inr (le_f32_at data (nat off))"
    by (simp only: o)
  then show ?thesis using True by (simp add: cell_value_def)
next
  case False
  then show ?thesis by (simp add: cell_value_def)
qed

lemma column_loop:
  assumes "0 \<le> start" and "0 \<le> stride" and "0 \<le> pos"
  shows "for_each
           (\<lambda>row_idx.
              let row_offset = start + (row_idx * stride);
                  col_offset = pos * 4;
                  offset = row_offset + col_offset
              in if offset + 4 \<le> int (length data)
                 then unpack_f (py_slice data offset (offset + 4))
                 else Inr NaN)
           (py_range 0 rows 1)
         = Inr (map (\<lambda>r. cell_value data (start + r * stride + pos * 4)) (py_range 0 rows 1))"
proof (rule for_each_total)
  fix r assume "r \<in> set (py_range 0 rows 1)"
  then have "0 \<le> r" by (rule py_range_0_1_nonneg)
  then have "0 \<le> r * stride" using assms(2) by simp
  then have "0 \<le> start + r * stride + pos * 4" using assms(1,3) by simp
  then show "(let row_offset = start + (r * stride);
                  col_offset = pos * 4;
                  offset = row_offset + col_offset
              in if offset + 4 \<le> int (length data)
                 then unpack_f (py_slice data offset (offset + 4))
                 else Inr NaN) = Inr (cell_value data (start + r * stride + pos * 4))"
    unfolding Let_def by (rule read_cell)
qed

lemma parse_interleaved_table:
  assumes "0 \<le> start" and "0 \<le> stride"
  shows "parse_interleaved data start stride rows =
     Inr (map (\<lambda>c. (c, map (\<lambda>r. cell_value data (start + r * stride + c * 2 * 4))
                          (py_range 0 rows 1)))
            (py_range 0 516 1))"
  unfolding parse_interleaved_def Let_def
proof (rule for_each_total)
  fix c assume "c \<in> set (py_range 0 516 1)"
  then have "0 \<le> c * 2" using py_range_0_1_nonneg [of c 516] by simp
  from column_loop [OF assms this, of data rows]
  show "(case for_each
               (\<lambda>row_idx.
                  if start + row_idx * stride + c * 2 * 4 + 4 \<le> int (length data)
                  then unpack_f (py_slice data (start + row_idx * stride + c * 2 * 4)
                          (start + row_idx * stride + c * 2 * 4 + 4))
                  else Inr NaN)
               (py_range 0 rows 1) of
          Inl e \<Rightarrow> Inl e
        | Inr col_data \<Rightarrow> Inr (c, col_data)) =
        Inr (c, map (\<lambda>r. cell_value data (start + r * stride + c * 2 * 4)) (py_range 0 rows 1))"
    unfolding Let_def by simp
qed

lemma parse_non_interleaved_table:
  assumes "0 \<le> start" and "0 \<le> stride"
  shows "parse_non_interleaved data start stride rows =
     Inr (map (\<lambda>c. (c, map (\<lambda>r. cell_value data (start + r * stride + c * 4))
                          (py_range 0 rows 1)))
            (py_range 0 (stride div 4) 1))"
  unfolding parse_non_interleaved_def Let_def
proof (rule for_each_total)
  fix c assume "c \<in> set (py_range 0 (stride div 4) 1)"
  then have "0 \<le> c" by (rule py_range_0_1_nonneg)
  from column_loop [OF assms this, of data rows]
  show "(case for_each
               (\<lambda>row_idx.
                  if start + row_idx * stride + c * 4 + 4 \<le> int (length data)
                  then unpack_f (py_slice data (start + row_idx * stride + c * 4)
                          (start + row_idx * stride + c * 4 + 4))
                  else Inr NaN)
               (py_range 0 rows 1) of
          Inl e \<Rightarrow> Inl e
        | Inr col_data \<Rightarrow> Inr (c, col_data)) =
        Inr (c, map (\<lambda>r. cell_value data (start + r * stride + c * 4)) (py_range 0 rows 1))"
    unfolding Let_def by simp
qed


lemma parse_table:
  assumes "format_info p = Some d"
    and "0 \<le> data_start d"
    and "0 \<le> bytes_per_row d"
    and "bytes_per_row d = floats_per_row d * 4"
  shows "parse p =
     Inr (map (\<lambda>c. (c, map (\<lambda>r. expected_cell (dl_data p) d r c) (py_range 0 (num_rows d) 1)))
            (py_range 0 (slot_count d) 1))"
proof (cases "interleaved d")
  case True
  have "parse p = parse_interleaved (dl_data p) (data_start d) (bytes_per_row d) (num_rows d)"
    using assms(1) True by (simp add: parse_def)
  also have "\<dots> = Inr (map (\<lambda>c. (c, map (\<lambda>r. cell_value (dl_data p)
                 (data_start d + r * bytes_per_row d + c * 2 * 4)) (py_range 0 (num_rows d) 1)))
            (py_range 0 516 1))"
    using assms(2,3) by (rule parse_interleaved_table)
  finally show ?thesis
    using True by (simp add: expected_cell_def cell_missing_def cell_offset_def slot_count_def
        cell_value_def)
next
  case False
  have fpr: "bytes_per_row d div 4 = floats_per_row d" using assms(4) by simp
  have "parse p = parse_non_interleaved (dl_data p) (data_start d) (bytes_per_row d) (num_rows d)"
    using assms(1) False by (simp add: parse_def)
  also have "\<dots> = Inr (map (\<lambda>c. (c, map (\<lambda>r. cell_value (dl_data p)
                 (data_start d + r * bytes_per_row d + c * 4)) (py_range 0 (num_rows d) 1)))
            (py_range 0 (bytes_per_row d div 4) 1))"
    using assms(2,3) by (rule parse_non_interleaved_table)
  finally show ?thesis
    using False by (simp add: expected_cell_def cell_missing_def cell_offset_def slot_count_def
        cell_value_def fpr)
qed

lemma table_column:
  assumes "0 \<le> c" and "c < slots"
  shows "map_of (map (\<lambda>c. (c, map (h c) (py_range 0 rows 1))) (py_range 0 slots 1)) c
         = Some (map (h c) (py_range 0 rows 1))"
  using py_range_0_1_mem [OF assms] by (rule map_of_indexed)

lemma table_cell:
  assumes "0 \<le> r" and "r < rows"
  shows "map (h c) (py_range 0 rows 1) ! nat r = h c r"
proof -
  have "nat r < length (py_range 0 rows 1)" using assms by (simp add: length_py_range_0_1)
  then show ?thesis using assms by (simp only: nth_map py_range_0_1_nth)
qed

lemma length_sample_v6_file: "length sample_v6_file = 24696"
  by (simp add: sample_v6_file_def)

lemma sample_v6_file_nth:
  "sample_v6_file ! 16456 = 0x00" "sample_v6_file ! 16457 = 0x40"
  "sample_v6_file ! 16458 = 0x1C" "sample_v6_file ! 16459 = 0x45"
  "sample_v6_file ! 16464 = 0x00" "sample_v6_file ! 16465 = 0x00"
  "sample_v6_file ! 16466 = 0x16" "sample_v6_file ! 16467 = 0x42"
  by (simp_all add: sample_v6_file_def nth_append)

lemma sample_v6_cells:
  "expected_cell sample_v6_file sample_v6_format 0 0 = Finite 2500"
  "expected_cell sample_v6_file sample_v6_format 0 1 = Finite (75 / 2)"
  "expected_cell sample_v6_file sample_v6_format 1 515 = NaN"
  by (simp_all add: expected_cell_def cell_missing_def cell_offset_def sample_v6_format_def
      length_sample_v6_file le_f32_at_def le_u32_at_def sample_v6_file_nth f32_of_bits_def)

lemma expected_cell_same_offset:
  "cell_offset d r c = cell_offset d r' c' \<Longrightarrow> expected_cell buf d r c = expected_cell buf d r' c'"
  by (simp add: expected_cell_def cell_missing_def)

lemma sample_v6_detected: "detect_format sample_v6_file = Inr (Some sample_v6_format)"
proof -
  have l: "32 \<le> length sample_v6_file" by (simp add: length_sample_v6_file)
  have m: "le_u32_at sample_v6_file 0 = 0x0085F41F" "le_u32_at sample_v6_file 8 = 6"
    by (simp_all add: le_u32_at_def sample_v6_file_def)
  show ?thesis
    by (simp add: detect_format_header [OF l] m detect_v5_v6_format_def MAGIC_V3_def
        MAGIC_V5_V6_def VERSION_V6_def V6_DATA_START_def length_sample_v6_file
        sample_v6_format_def)
qed

lemma heuristic_loop_shape:
  "\<forall>s \<in> set cs. 16 \<le> s \<Longrightarrow> detect_v5_v6_heuristic_loop buf f cs = Some d \<Longrightarrow>
   0 \<le> data_start d \<and> bytes_per_row d = 1030 * 4 \<and> floats_per_row d = 1030 \<and> interleaved d"
proof (induction cs)
  case Nil
  then show ?case by simp
next
  case (Cons c cs)
  then show ?case
    by (auto simp: Let_def split: sum.splits if_splits)
qed

lemma detect_format_descriptor_wf:
  assumes "detect_format buf = Inr (Some d)"
  shows "0 \<le> data_start d \<and> 0 \<le> bytes_per_row d \<and> bytes_per_row d = floats_per_row d * 4"
proof -
  have l: "32 \<le> length buf" using assms by (auto simp: detect_format_def split: if_splits)
  let ?f = "int (le_u32_at buf 8)"
  consider (v3) "detect_v3_format buf ?f = Some d"
    | (v6) "detect_v5_v6_format buf ?f = Inr (Some d)"
    using assms by (auto simp: detect_format_header [OF l] split: if_splits)
  then show ?thesis
  proof cases
    case v3
    let ?cs = "py_range (fst V3_DATA_START_RANGE) (snd V3_DATA_START_RANGE) 100"
    have nonneg: "\<forall>s \<in> set ?cs. 0 \<le> s"
    proof
      fix s assume "s \<in> set ?cs"
      then have "v3_window s" by (simp only: v3_range_set)
      then show "0 \<le> s" by (simp add: v3_window_def)
    qed
    have srt: "sorted ?cs" by (rule py_range_sorted) simp
    from detect_v3_loop_first [OF nonneg srt, of buf ?f] v3
    have d: "d = v3_descriptor buf ?f (data_start d)" "data_start d \<in> set ?cs"
      by (simp_all add: detect_v3_format_def)
    have "0 \<le> data_start d" using d(2) nonneg by blast
    moreover have "bytes_per_row d = 516 * 4 \<and> floats_per_row d = 516"
      by (subst d(1), subst (2) d(1)) (simp add: v3_descriptor_def)
    ultimately show ?thesis by simp
  next
    case v6
    have rng: "\<forall>s \<in> set (py_range 15000 18000 4). 16 \<le> s"
    proof -
      have "set (py_range 15000 18000 4) = {s. 15000 \<le> s \<and> s < 18000 \<and> (s - 15000) mod 4 = 0}"
        by (rule py_range_steps) simp_all
      then show ?thesis by simp
    qed
    from v6 show ?thesis
      using heuristic_loop_shape [OF rng, of buf ?f d]
      by (auto simp: detect_v5_v6_format_def detect_v5_v6_heuristic_def Let_def
          V6_DATA_START_def split: if_splits)
  qed
qed

lemma init_descriptor_wf:
  assumes "init nm buf = Inr p"
  shows "\<exists>d. format_info p = Some d \<and> dl_data p = buf \<and> 0 \<le> data_start d \<and>
             0 \<le> bytes_per_row d \<and> bytes_per_row d = floats_per_row d * 4"
proof -
  from assms obtain d where d: "detect_format buf = Inr (Some d)"
    and p: "p = \<lparr>dl_path_name = nm, dl_data = buf, format_info = Some d\<rparr>"
    by (auto simp: init_def split: sum.splits option.splits)
  from detect_format_descriptor_wf [OF d] p show ?thesis by simp
qed

section \<open>The decompressor\<close>

text \<open>
  Claim C4. The byte swap is an involution on byte sequences of every length: swapping
  twice gives the input back. The output has the length of the input; the byte at index
  \<open>i\<close> comes from the mirrored place of its group of four when that group is complete,
  and from the same index when it lies in a shorter tail.
\<close>

theorem byte_swap_involution:
  "byte_swap (byte_swap x) = x \<and>
   length (byte_swap x) = length x \<and>
   (\<forall>i < length x.
      byte_swap x ! i =
        (if 4 * (i div 4) + 4 \<le> length x then x ! (4 * (i div 4) + (3 - i mod 4)) else x ! i))"
  by (simp add: byte_swap_groups swap_groups_invol length_swap_groups swap_groups_nth)

text \<open>
  The swap of six bytes, for claim C4: the first group is reversed, the tail of two is kept.
\<close>

theorem byte_swap_involution_witness:
  "byte_swap (byte_swap [1, 2, 3, 4, 5, 6 :: byte]) = [1, 2, 3, 4, 5, 6] \<and>
   length (byte_swap [1, 2, 3, 4, 5, 6 :: byte]) = 6 \<and>
   byte_swap [1, 2, 3, 4, 5, 6 :: byte] ! 0 = 4 \<and>
   byte_swap [1, 2, 3, 4, 5, 6 :: byte] ! 5 = 6"
proof -
  note t = byte_swap_involution [of "[1, 2, 3, 4, 5, 6 :: byte]"]
  from t have a: "byte_swap (byte_swap [1, 2, 3, 4, 5, 6 :: byte]) = [1, 2, 3, 4, 5, 6]"
    by (rule conjunct1)
  from t have b: "length (byte_swap [1, 2, 3, 4, 5, 6 :: byte]) = 6" by simp
  from t have q: "\<forall>i < 6. byte_swap [1, 2, 3, 4, 5, 6 :: byte] ! i =
        (if 4 * (i div 4) + 4 \<le> 6 then [1, 2, 3, 4, 5, 6 :: byte] ! (4 * (i div 4) + (3 - i mod 4))
         else [1, 2, 3, 4, 5, 6] ! i)" by simp
  from q [rule_format, of 0] have c: "byte_swap [1, 2, 3, 4, 5, 6 :: byte] ! 0 = 4" by simp
  from q [rule_format, of 5] have d: "byte_swap [1, 2, 3, 4, 5, 6 :: byte] ! 5 = 6" by simp
  from a b c d show ?thesis by blast
qed

text \<open>
  Claim C2. For every input, the empty one included, \<^verbatim>\<open>decompress_dlz\<close> returns without
  an exception, and what it returns is the byte swap of the run-length decoding of the
  byte swap of the input, in that order.
\<close>

theorem decompress_dlz_pipeline:
  "(\<exists>y. rle_decompress (byte_swap x) = Inr y \<and> decompress_dlz x = Inr (byte_swap y)) \<and>
   decompress_dlz [] = Inr []"
  by (simp add: decompress_dlz_def rle_decompress_reference byte_swap_groups)

text \<open>
  The pipeline on four bytes and on the empty input, for claim C2: the swap puts the run
  \<open>0xFF, 5, 0x41\<close> after the byte 7, the decoding expands it, and the second swap
  reverses the first group of the six decoded bytes.
\<close>

theorem decompress_dlz_pipeline_witness:
  "decompress_dlz [0x41, 5, 0xFF, 7] = Inr [0x41, 0x41, 0x41, 7, 0x41, 0x41] \<and>
   decompress_dlz [] = Inr []"
proof -
  have r5: "replicate 5 (0x41 :: byte) = [0x41, 0x41, 0x41, 0x41, 0x41]"
    by (simp add: numeral_eq_Suc)
  have bs: "byte_swap [0x41, 5, 0xFF, 7] = [7, 0xFF, 5, 0x41]"
    by (simp add: byte_swap_groups)
  have rl: "rle_decompress [7, 0xFF, 5, 0x41] = Inr [7, 0x41, 0x41, 0x41, 0x41, 0x41]"
    by (simp add: rle_decompress_reference r5)
  have sw: "byte_swap [7, 0x41, 0x41, 0x41, 0x41, 0x41] = [0x41, 0x41, 0x41, 7, 0x41, 0x41]"
    by (simp add: byte_swap_groups)
  from decompress_dlz_pipeline [of "[0x41, 5, 0xFF, 7]"]
  obtain y where y: "rle_decompress (byte_swap [0x41, 5, 0xFF, 7]) = Inr y"
    and d: "decompress_dlz [0x41, 5, 0xFF, 7] = Inr (byte_swap y)"
    and e: "decompress_dlz [] = Inr []" by blast
  from y have "y = [7, 0x41, 0x41, 0x41, 0x41, 0x41]" by (simp only: bs rl sum.inject)
  with d e sw show ?thesis by (simp only:)
qed

text \<open>
  Claim C3. The run-length decoder scans from the left. With \<open>ys\<close> the decoding of the
  remaining input: a byte other than \<open>0xFF\<close> is copied before \<open>ys\<close>; the group
  \<open>0xFF, 0, v\<close> gives one \<open>0xFF\<close> and drops \<open>v\<close>; the group \<open>0xFF, n, v\<close> with
  \<open>n > 0\<close> gives \<open>v\<close> repeated \<open>n\<close> times. So \<open>[0xFF, 0, v]\<close> decodes to
  \<open>[0xFF]\<close> for every \<open>v\<close>, and \<open>[0xFF, n, v]\<close> with \<open>n > 0\<close> to \<open>n\<close> copies
  of \<open>v\<close>.
\<close>

theorem rle_decompress_scan:
  "\<exists>ys. rle_decompress rest = Inr ys \<and>
     (b \<noteq> 0xFF \<longrightarrow> rle_decompress (b # rest) = Inr (b # ys)) \<and>
     rle_decompress (0xFF # 0 # v # rest) = Inr (0xFF # ys) \<and>
     (n \<noteq> 0 \<longrightarrow> rle_decompress (0xFF # n # v # rest) = Inr (replicate (unat n) v @ ys)) \<and>
     rle_decompress [0xFF, 0, v] = Inr [0xFF] \<and>
     (n \<noteq> 0 \<longrightarrow> rle_decompress [0xFF, n, v] = Inr (replicate (unat n) v))"
  by (simp add: rle_decompress_reference rle_reference_copy)

text \<open>
  Three decodings, for claim C3: a copied byte before a run, the escape, and the run of
  five \<open>0x41\<close>.
\<close>

theorem rle_decompress_scan_witness:
  "rle_decompress [0x07, 0xFF, 0x05, 0x41] = Inr [0x07, 0x41, 0x41, 0x41, 0x41, 0x41] \<and>
   rle_decompress [0xFF, 0x00, 0x99] = Inr [0xFF] \<and>
   rle_decompress [0xFF, 0x05, 0x41] = Inr [0x41, 0x41, 0x41, 0x41, 0x41]"
proof -
  have r5: "replicate 5 (0x41 :: byte) = [0x41, 0x41, 0x41, 0x41, 0x41]"
    by (simp add: numeral_eq_Suc)
  from rle_decompress_scan [of "[]" "0x05" "0x41" "0x05"]
  have g: "rle_decompress [0xFF, 0x05, 0x41] = Inr [0x41, 0x41, 0x41, 0x41, 0x41]"
    by (auto simp: r5)
  from rle_decompress_scan [of "[0xFF, 0x05, 0x41]" "0x07" "0x99" "0x05"] g
  have c: "rle_decompress [0x07, 0xFF, 0x05, 0x41] = Inr [0x07, 0x41, 0x41, 0x41, 0x41, 0x41]"
    by auto
  from rle_decompress_scan [of "[]" "0x07" "0x99" "0x05"]
  have e: "rle_decompress [0xFF, 0x00, 0x99] = Inr [0xFF]" by auto
  from c e g show ?thesis by blast
qed

text \<open>
  Claim C9. The run-length decoder is the identity on input without the marker: when no
  byte of \<open>x\<close> is \<open>0xFF\<close>, decoding \<open>x\<close> returns \<open>x\<close>.
\<close>

theorem rle_decompress_marker_free:
  "0xFF \<notin> set x \<Longrightarrow> rle_decompress x = Inr x"
  by (simp add: rle_decompress_reference rle_reference_marker_free)

text \<open>
  A marker-free input, for claim C9.
\<close>

theorem rle_decompress_marker_free_witness:
  "0xFF \<notin> set [0x00, 0x41, 0xFE :: byte] \<and> rle_decompress [0x00, 0x41, 0xFE] = Inr [0x00, 0x41, 0xFE]"
proof -
  have h: "0xFF \<notin> set [0x00, 0x41, 0xFE :: byte]" by simp
  from rle_decompress_marker_free [OF h] h show ?thesis by blast
qed

section \<open>Format detection\<close>

text \<open>
  Claim C1, as the code has it. For a buffer of at least 32 bytes with the standard magic
  \<open>0x0085F41F\<close> at offset 0 and the version indicator 6 at offset 8, detection returns a
  descriptor exactly when the bytes after offset 16456 hold at least one row of
  \<open>1030 * 4\<close> bytes and leave a remainder below 100; that descriptor has
  \<open>data_start = 16456\<close>, is interleaved and has 1030 floats per row. Otherwise
  detection returns no descriptor.
\<close>

theorem detect_format_v6:
  assumes "32 \<le> length buf"
    and "le_u32_at buf 0 = 0x0085F41F"
    and "le_u32_at buf 8 = 6"
  shows "if (int (length buf) - 16456) div (1030 * 4) > 0 \<and>
            (int (length buf) - 16456) mod (1030 * 4) < 100
         then \<exists>d. detect_format buf = Inr (Some d) \<and> data_start d = 16456 \<and> interleaved d \<and>
                  floats_per_row d = 1030 \<and> bytes_per_row d = 1030 * 4 \<and>
                  num_rows d = (int (length buf) - 16456) div (1030 * 4)
         else detect_format buf = Inr None"
  using assms
  by (simp add: detect_format_header detect_v5_v6_format_def MAGIC_V3_def MAGIC_V5_V6_def
      VERSION_V6_def V6_DATA_START_def Let_def)

text \<open>
  A version 6 buffer with exactly one row after offset 16456, for claim C1.
\<close>

theorem detect_format_v6_witness:
  "32 \<le> length ([0x1F, 0xF4, 0x85, 0x00, 0, 0, 0, 0, 6, 0, 0, 0 :: byte] @ replicate 20564 0) \<and>
   (\<exists>d. detect_format ([0x1F, 0xF4, 0x85, 0x00, 0, 0, 0, 0, 6, 0, 0, 0 :: byte] @ replicate 20564 0)
          = Inr (Some d) \<and>
        data_start d = 16456 \<and> interleaved d \<and> floats_per_row d = 1030 \<and> num_rows d = 1)"
proof -
  let ?b = "[0x1F, 0xF4, 0x85, 0x00, 0, 0, 0, 0, 6, 0, 0, 0 :: byte] @ replicate 20564 0"
  have l: "32 \<le> length ?b" by simp
  have m: "le_u32_at ?b 0 = 0x0085F41F" by (simp add: le_u32_at_def)
  have v: "le_u32_at ?b 8 = 6" by (simp add: le_u32_at_def)
  from detect_format_v6 [OF l m v] l show ?thesis by auto
qed

text \<open>
  Claim C1 as stated fails: a buffer of 32 bytes with the standard magic and the version
  indicator 6 gets no descriptor.
\<close>

theorem detect_format_v6_counterexample:
  "32 \<le> length ([0x1F, 0xF4, 0x85, 0x00, 0, 0, 0, 0, 6, 0, 0, 0 :: byte] @ replicate 20 0) \<and>
   le_u32_at ([0x1F, 0xF4, 0x85, 0x00, 0, 0, 0, 0, 6, 0, 0, 0 :: byte] @ replicate 20 0) 0 = 0x0085F41F \<and>
   le_u32_at ([0x1F, 0xF4, 0x85, 0x00, 0, 0, 0, 0, 6, 0, 0, 0 :: byte] @ replicate 20 0) 8 = 6 \<and>
   detect_format ([0x1F, 0xF4, 0x85, 0x00, 0, 0, 0, 0, 6, 0, 0, 0 :: byte] @ replicate 20 0) = Inr None"
  by (simp add: le_u32_at_def detect_format_def unpack_I_def py_slice_def py_clamp_def
      detect_v5_v6_format_def MAGIC_V3_def MAGIC_V5_V6_def VERSION_V6_def V6_DATA_START_def Let_def)

text \<open>
  Claim C6. For a buffer of at least 32 bytes with the standard magic and the version
  indicator 5, detection raises the ValueError of the sparse format; the constructor and
  the decoding of the file end with that same exception, so no descriptor and no table
  is returned. The exception differs from the answer for an unknown format, which is
  \<^verbatim>\<open>None\<close> from detection and the ValueError \<^verbatim>\<open>Unknown DL format\<close> from the constructor.
\<close>

theorem detect_format_v5_raises:
  assumes "32 \<le> length buf"
    and "le_u32_at buf 0 = 0x0085F41F"
    and "le_u32_at buf 8 = 5"
  shows "detect_format buf = Inl (ValueError (v5_message 5)) \<and>
         init nm buf = Inl (ValueError (v5_message 5)) \<and>
         main_parse nm buf = Inl (ValueError (v5_message 5)) \<and>
         detect_format buf \<noteq> Inr None \<and>
         init nm buf \<noteq> Inl (ValueError (''Unknown DL format: '' @ nm))"
proof -
  have d: "detect_format buf = Inl (ValueError (v5_message 5))"
    using assms
    by (simp add: detect_format_header detect_v5_v6_format_def MAGIC_V3_def MAGIC_V5_V6_def
        VERSION_V5_def VERSION_V6_def)
  then have i: "init nm buf = Inl (ValueError (v5_message 5))" by (simp add: init_def)
  then have p: "main_parse nm buf = Inl (ValueError (v5_message 5))" by (simp add: main_parse_def)
  from d i p show ?thesis using v5_message_not_unknown [of 5 nm] by simp
qed

text \<open>
  A version 5 buffer, for claim C6.
\<close>

theorem detect_format_v5_raises_witness:
  "32 \<le> length ([0x1F, 0xF4, 0x85, 0x00, 0, 0, 0, 0, 5, 0, 0, 0 :: byte] @ replicate 30000 0) \<and>
   main_parse ''run.dl'' ([0x1F, 0xF4, 0x85, 0x00, 0, 0, 0, 0, 5, 0, 0, 0 :: byte] @ replicate 30000 0)
     = Inl (ValueError (v5_message 5)) \<and>
   init ''run.dl'' ([0x1F, 0xF4, 0x85, 0x00, 0, 0, 0, 0, 5, 0, 0, 0 :: byte] @ replicate 30000 0)
     \<noteq> Inl (ValueError (''Unknown DL format: '' @ ''run.dl''))"
proof -
  let ?b = "[0x1F, 0xF4, 0x85, 0x00, 0, 0, 0, 0, 5, 0, 0, 0 :: byte] @ replicate 30000 0"
  have l: "32 \<le> length ?b" by simp
  have m: "le_u32_at ?b 0 = 0x0085F41F" by (simp add: le_u32_at_def)
  have v: "le_u32_at ?b 8 = 5" by (simp add: le_u32_at_def)
  from detect_format_v5_raises [OF l m v, of "''run.dl''"] l show ?thesis by blast
qed

text \<open>
  Claim C7, as the code has it. For a buffer shorter than 32 bytes detection returns no
  descriptor and the constructor raises the ValueError \<^verbatim>\<open>Unknown DL format\<close>; a buffer
  of at least 32 bytes whose magic is neither known signature gets the same answer and
  the same exception.
\<close>

theorem detect_format_unclassified:
  assumes "length buf < 32 \<or>
           (32 \<le> length buf \<and> le_u32_at buf 0 \<noteq> 0x0095365F \<and> le_u32_at buf 0 \<noteq> 0x0085F41F)"
  shows "detect_format buf = Inr None \<and>
         init nm buf = Inl (ValueError (''Unknown DL format: '' @ nm))"
proof -
  have d: "detect_format buf = Inr None"
    using assms
    by (auto simp: detect_format_short detect_format_header MAGIC_V3_def MAGIC_V5_V6_def)
  then show ?thesis by (simp add: init_def)
qed

text \<open>
  A buffer of three bytes, for claim C7.
\<close>

theorem detect_format_unclassified_witness:
  "length [0x1F, 0xF4, 0x85 :: byte] < 32 \<and>
   detect_format [0x1F, 0xF4, 0x85] = Inr None \<and>
   init ''run.dl'' [0x1F, 0xF4, 0x85] = Inl (ValueError ''Unknown DL format: run.dl'')"
proof -
  have h: "length [0x1F, 0xF4, 0x85 :: byte] < 32 \<or>
           (32 \<le> length [0x1F, 0xF4, 0x85 :: byte] \<and> le_u32_at [0x1F, 0xF4, 0x85] 0 \<noteq> 0x0095365F \<and>
            le_u32_at [0x1F, 0xF4, 0x85] 0 \<noteq> 0x0085F41F)" by simp
  from detect_format_unclassified [OF h, of "''run.dl''"] show ?thesis by simp
qed

text \<open>
  Claim C7 as stated fails: the empty buffer and a buffer of 32 zero bytes, whose magic is
  unknown, end in one and the same exception.
\<close>

theorem malformed_header_counterexample:
  "length ([] :: byte list) < 32 \<and>
   32 \<le> length (replicate 32 (0 :: byte)) \<and>
   le_u32_at (replicate 32 0) 0 \<noteq> 0x0095365F \<and>
   le_u32_at (replicate 32 0) 0 \<noteq> 0x0085F41F \<and>
   detect_format [] = detect_format (replicate 32 0) \<and>
   init ''run.dl'' [] = init ''run.dl'' (replicate 32 0) \<and>
   init ''run.dl'' [] = Inl (ValueError ''Unknown DL format: run.dl'')"
proof -
  have z: "le_u32_at (replicate 32 0) 0 = 0" by (simp add: le_u32_at_def)
  have a: "detect_format [] = Inr None" by (simp add: detect_format_def)
  have b: "detect_format (replicate 32 0) = Inr None"
    by (simp add: detect_format_header z MAGIC_V3_def MAGIC_V5_V6_def)
  show ?thesis by (simp add: init_def a b z)
qed

text \<open>
  Claim C8. For a buffer with the legacy magic \<open>0x0095365F\<close>, the data start that
  detection resolves is a candidate of the scan window (1000 up to 5000 in steps of 100)
  that passes both checks, the remainder check and the sample check, and no candidate
  that passes both is lower: of two passing candidates the lower one is returned. When no
  candidate passes, detection returns no descriptor.
\<close>

theorem detect_v3_lowest_candidate:
  assumes "32 \<le> length buf"
    and "le_u32_at buf 0 = 0x0095365F"
  shows "case detect_format buf of
           Inl e \<Rightarrow> False
         | Inr None \<Rightarrow> \<forall>s. v3_window s \<longrightarrow> \<not> v3_candidate_ok buf s
         | Inr (Some d) \<Rightarrow>
             v3_window (data_start d) \<and> v3_candidate_ok buf (data_start d) \<and>
             (\<forall>s. v3_window s \<and> v3_candidate_ok buf s \<longrightarrow> data_start d \<le> s) \<and>
             \<not> interleaved d \<and> floats_per_row d = 516 \<and> bytes_per_row d = 516 * 4"
proof -
  let ?cs = "py_range (fst V3_DATA_START_RANGE) (snd V3_DATA_START_RANGE) 100"
  let ?f = "int (le_u32_at buf 8)"
  have df: "detect_format buf = Inr (detect_v3_loop buf ?f ?cs)"
    using assms by (simp add: detect_format_header MAGIC_V3_def detect_v3_format_def)
  have nonneg: "\<forall>s \<in> set ?cs. 0 \<le> s"
  proof
    fix s assume "s \<in> set ?cs"
    then have "v3_window s" by (simp only: v3_range_set)
    then show "0 \<le> s" by (simp add: v3_window_def)
  qed
  have srt: "sorted ?cs" by (rule py_range_sorted) simp
  note first = detect_v3_loop_first [OF nonneg srt, of buf ?f]
  show ?thesis
  proof (cases "detect_v3_loop buf ?f ?cs")
    case None
    then have "\<forall>s \<in> set ?cs. \<not> v3_candidate_ok buf s" using first by simp
    then have "\<forall>s. v3_window s \<longrightarrow> \<not> v3_candidate_ok buf s"
      by (simp only: v3_range_set Ball_def)
    then show ?thesis by (simp only: df None sum.case option.case)
  next
    case (Some d)
    then have d: "d = v3_descriptor buf ?f (data_start d)" "data_start d \<in> set ?cs"
        "v3_candidate_ok buf (data_start d)"
        "\<forall>s \<in> set ?cs. v3_candidate_ok buf s \<longrightarrow> data_start d \<le> s"
      using first by simp_all
    have w: "v3_window (data_start d)" using d(2) by (simp only: v3_range_set)
    have low: "\<forall>s. v3_window s \<and> v3_candidate_ok buf s \<longrightarrow> data_start d \<le> s"
      using d(4) by (simp only: v3_range_set Ball_def) blast
    have shape: "\<not> interleaved d \<and> floats_per_row d = 516 \<and> bytes_per_row d = 516 * 4"
      by (subst d(1), subst (2) d(1), subst (3) d(1)) (simp add: v3_descriptor_def)
    from w d(3) low shape show ?thesis by (simp only: df Some sum.case option.case) blast
  qed
qed

text \<open>
  A legacy buffer of 5178 zero bytes after the magic, for claim C8: the candidates 1000
  and 3100 both pass, and the data start is 1000.
\<close>

theorem detect_v3_lowest_candidate_witness:
  "32 \<le> length ([0x5F, 0x36, 0x95, 0x00 :: byte] @ replicate 5174 0) \<and>
   v3_candidate_ok ([0x5F, 0x36, 0x95, 0x00 :: byte] @ replicate 5174 0) 1000 \<and>
   v3_candidate_ok ([0x5F, 0x36, 0x95, 0x00 :: byte] @ replicate 5174 0) 3100 \<and>
   (\<exists>d. detect_format ([0x5F, 0x36, 0x95, 0x00 :: byte] @ replicate 5174 0) = Inr (Some d) \<and>
        data_start d = 1000)"
proof -
  let ?b = "[0x5F, 0x36, 0x95, 0x00 :: byte] @ replicate 5174 0"
  have l: "32 \<le> length ?b" by simp
  have m: "le_u32_at ?b 0 = 0x0095365F" by (simp add: le_u32_at_def)
  have z1: "le_f32_at ?b 1040 = Finite 0"
    by (simp add: le_f32_at_def le_u32_at_def nth_append f32_of_bits_def)
  have z2: "le_f32_at ?b 3140 = Finite 0"
    by (simp add: le_f32_at_def le_u32_at_def nth_append f32_of_bits_def)
  have ok1: "v3_candidate_ok ?b 1000"
    using z1 by (simp add: v3_candidate_ok_def plausible_sensor_def)
  have ok2: "v3_candidate_ok ?b 3100"
    using z2 by (simp add: v3_candidate_ok_def plausible_sensor_def)
  have w: "v3_window 1000" by (simp add: v3_window_def)
  note t = detect_v3_lowest_candidate [OF l m]
  have "\<exists>d. detect_format ?b = Inr (Some d) \<and> data_start d = 1000"
  proof (cases "detect_format ?b")
    case (Inl e)
    with t show ?thesis by simp
  next
    case (Inr r)
    show ?thesis
    proof (cases r)
      case None
      with t Inr have "\<forall>s. v3_window s \<longrightarrow> \<not> v3_candidate_ok ?b s" by simp
      with w ok1 show ?thesis by blast
    next
      case (Some d)
      with t Inr have "v3_window (data_start d)"
        and "\<forall>s. v3_window s \<and> v3_candidate_ok ?b s \<longrightarrow> data_start d \<le> s" by simp_all
      then have "1000 \<le> data_start d" "data_start d \<le> 1000"
        using w ok1 by (simp_all add: v3_window_def)
      then show ?thesis using Inr Some by simp
    qed
  qed
  with l ok1 ok2 show ?thesis by blast
qed

section \<open>The structured decoder\<close>

text \<open>
  Claim C5. For a parser object whose descriptor has a data start and a stride that are
  not negative and a stride of four bytes per float, as every descriptor of detection has
  (\<open>init_descriptor_wf\<close>), decoding returns a table without an exception. For every row
  \<open>r\<close> below the row count and every channel slot \<open>c\<close> (516 slots when interleaved,
  \<open>floats_per_row\<close> otherwise) the column of \<open>c\<close> holds at row \<open>r\<close> the value at byte
  offset \<open>data_start + r * bytes_per_row + (if interleaved then c * 2 else c) * 4\<close>:
  the missing value when that offset plus 4 exceeds the length of the buffer, and the
  little-endian single stored in those four bytes otherwise.
\<close>

theorem parse_cells:
  assumes "format_info p = Some d"
    and "0 \<le> data_start d"
    and "0 \<le> bytes_per_row d"
    and "bytes_per_row d = floats_per_row d * 4"
  shows "\<exists>tbl. parse p = Inr tbl \<and>
           (\<forall>r c. 0 \<le> r \<and> r < num_rows d \<and> 0 \<le> c \<and> c < slot_count d \<longrightarrow>
              (\<exists>col. map_of tbl c = Some col \<and> length col = nat (num_rows d) \<and>
                     col ! nat r = expected_cell (dl_data p) d r c))"
proof -
  let ?h = "\<lambda>c r. expected_cell (dl_data p) d r c"
  define tbl where "tbl = map (\<lambda>c. (c, map (?h c) (py_range 0 (num_rows d) 1)))
                            (py_range 0 (slot_count d) 1)"
  have tb: "parse p = Inr tbl"
    unfolding tbl_def using assms by (rule parse_table)
  have cells: "\<exists>col. map_of tbl c = Some col \<and> length col = nat (num_rows d) \<and>
                     col ! nat r = expected_cell (dl_data p) d r c"
    if a: "0 \<le> r \<and> r < num_rows d \<and> 0 \<le> c \<and> c < slot_count d" for r c
  proof -
    have 1: "map_of tbl c = Some (map (?h c) (py_range 0 (num_rows d) 1))"
      unfolding tbl_def using a by (intro table_column) simp_all
    have 2: "length (map (?h c) (py_range 0 (num_rows d) 1)) = nat (num_rows d)"
      by (simp add: length_py_range_0_1)
    have 3: "map (?h c) (py_range 0 (num_rows d) 1) ! nat r = ?h c r"
      using a by (intro table_cell) simp_all
    from 1 2 3 show ?thesis by blast
  qed
  from tb cells show ?thesis by blast
qed

text \<open>
  The sample file, for claim C5: row 0 has 2500.0 in slot 0 and 37.5 in slot 1, and the
  last slot of the last row is missing.
\<close>

theorem parse_cells_witness:
  "\<exists>tbl. parse sample_v6_parser = Inr tbl \<and>
     (\<exists>col. map_of tbl 0 = Some col \<and> length col = 2 \<and> col ! 0 = Finite 2500) \<and>
     (\<exists>col. map_of tbl 1 = Some col \<and> length col = 2 \<and> col ! 0 = Finite (75 / 2)) \<and>
     (\<exists>col. map_of tbl 515 = Some col \<and> length col = 2 \<and> col ! 1 = NaN)"
proof -
  have h: "format_info sample_v6_parser = Some sample_v6_format"
    "0 \<le> data_start sample_v6_format" "0 \<le> bytes_per_row sample_v6_format"
    "bytes_per_row sample_v6_format = floats_per_row sample_v6_format * 4"
    by (simp_all add: sample_v6_parser_def sample_v6_format_def)
  have d: "dl_data sample_v6_parser = sample_v6_file" "num_rows sample_v6_format = 2"
    "slot_count sample_v6_format = 516"
    by (simp_all add: sample_v6_parser_def sample_v6_format_def slot_count_def)
  from parse_cells [OF h] obtain tbl where t: "parse sample_v6_parser = Inr tbl"
    and c: "\<And>r c. 0 \<le> r \<and> r < 2 \<and> 0 \<le> c \<and> c < 516 \<Longrightarrow>
              \<exists>col. map_of tbl c = Some col \<and> length col = nat 2 \<and>
                    col ! nat r = expected_cell sample_v6_file sample_v6_format r c"
    unfolding d by blast
  from c [of 0 0] have 1: "\<exists>col. map_of tbl 0 = Some col \<and> length col = 2 \<and> col ! 0 = Finite 2500"
    by (simp add: sample_v6_cells)
  from c [of 0 1] have 2: "\<exists>col. map_of tbl 1 = Some col \<and> length col = 2 \<and> col ! 0 = Finite (75 / 2)"
    by (simp add: sample_v6_cells)
  from c [of 1 515] have 3: "\<exists>col. map_of tbl 515 = Some col \<and> length col = 2 \<and> col ! 1 = NaN"
    by (simp add: sample_v6_cells)
  from t 1 2 3 show ?thesis by blast
qed

text \<open>
  Claim C10. In an interleaved decoding with rows of \<open>1030 * 4\<close> bytes, the offset read
  for slot 515 of row \<open>r\<close> is \<open>data_start + r * bytes_per_row + 4120\<close>, which is
  \<open>data_start + (r + 1) * bytes_per_row\<close>, the offset of slot 0 of row \<open>r + 1\<close>. The
  decoded table has it so: the cell of slot 515 in row \<open>r\<close> is the single stored in the
  four bytes at \<open>data_start + (r + 1) * bytes_per_row\<close>, the first four bytes of the
  next row, or the missing value when they do not lie inside the buffer, and the cell of
  slot 0 in row \<open>r\<close> is the single at \<open>data_start + r * bytes_per_row\<close>. So the cell
  of slot 515 in row \<open>r\<close> equals the cell of slot 0 in row \<open>r + 1\<close> whenever
  \<open>r + 1\<close> is below the row count. When the buffer ends exactly at
  \<open>data_start + row_count * bytes_per_row\<close>, slot 515 of the final row is the one cell
  of the table that is missing, and every other cell is the single read at its offset.
\<close>

theorem interleaved_last_slot:
  assumes "format_info p = Some d"
    and "interleaved d"
    and "floats_per_row d = 1030"
    and "bytes_per_row d = 1030 * 4"
    and "0 \<le> data_start d"
  shows "(\<forall>r. cell_offset d r 515 = data_start d + r * bytes_per_row d + 4120 \<and>
              cell_offset d r 515 = data_start d + (r + 1) * bytes_per_row d \<and>
              cell_offset d r 515 = cell_offset d (r + 1) 0) \<and>
         (\<exists>tbl last first.
            parse p = Inr tbl \<and> map_of tbl 515 = Some last \<and> map_of tbl 0 = Some first \<and>
            (\<forall>r. 0 \<le> r \<and> r < num_rows d \<longrightarrow>
               last ! nat r =
                 (if data_start d + (r + 1) * bytes_per_row d + 4 > int (length (dl_data p))
                  then NaN
                  else le_f32_at (dl_data p) (nat (data_start d + (r + 1) * bytes_per_row d))) \<and>
               first ! nat r =
                 (if data_start d + r * bytes_per_row d + 4 > int (length (dl_data p))
                  then NaN
                  else le_f32_at (dl_data p) (nat (data_start d + r * bytes_per_row d)))) \<and>
            (\<forall>r. 0 \<le> r \<and> r + 1 < num_rows d \<longrightarrow> last ! nat r = first ! nat (r + 1)) \<and>
            (int (length (dl_data p)) = data_start d + num_rows d * bytes_per_row d \<longrightarrow>
               (\<forall>r c. 0 \<le> r \<and> r < num_rows d \<and> 0 \<le> c \<and> c < 516 \<longrightarrow>
                  (cell_missing (dl_data p) d r c \<longleftrightarrow> r = num_rows d - 1 \<and> c = 515) \<and>
                  (\<exists>col. map_of tbl c = Some col \<and>
                     col ! nat r =
                       (if r = num_rows d - 1 \<and> c = 515 then NaN
                        else le_f32_at (dl_data p)
                               (nat (data_start d + r * bytes_per_row d + c * 2 * 4))))) \<and>
               (0 < num_rows d \<longrightarrow> last ! nat (num_rows d - 1) = NaN)))"
proof -
  let ?buf = "dl_data p"
  let ?h = "\<lambda>c r. expected_cell ?buf d r c"
  let ?rows = "py_range 0 (num_rows d) 1"
  define tbl where "tbl = map (\<lambda>c. (c, map (?h c) ?rows)) (py_range 0 (slot_count d) 1)"
  have off: "cell_offset d r 515 = data_start d + r * bytes_per_row d + 4120 \<and>
             cell_offset d r 515 = data_start d + (r + 1) * bytes_per_row d \<and>
             cell_offset d r 515 = cell_offset d (r + 1) 0" for r
    using assms(2,4) by (simp add: cell_offset_def algebra_simps)
  have off0: "cell_offset d r 0 = data_start d + r * bytes_per_row d" for r
    using assms(2) by (simp add: cell_offset_def)
  have offc: "cell_offset d r c = data_start d + r * bytes_per_row d + c * 2 * 4" for r c
    using assms(2) by (simp add: cell_offset_def)
  have sc: "slot_count d = 516" using assms(2) by (simp add: slot_count_def)
  have wf: "0 \<le> bytes_per_row d" "bytes_per_row d = floats_per_row d * 4"
    using assms(3,4) by simp_all
  have tb: "parse p = Inr tbl"
    unfolding tbl_def using assms(1,5) wf by (rule parse_table)
  have col: "map_of tbl c = Some (map (?h c) ?rows)" if "0 \<le> c \<and> c < 516" for c
    unfolding tbl_def sc using that by (intro table_column) simp_all
  have c515: "map_of tbl 515 = Some (map (?h 515) ?rows)" by (rule col) simp
  have c0: "map_of tbl 0 = Some (map (?h 0) ?rows)" by (rule col) simp
  have cell: "map (?h c) ?rows ! nat r = ?h c r" if "0 \<le> r \<and> r < num_rows d" for r c
    using that by (intro table_cell) simp_all
  have bytes: "map (?h 515) ?rows ! nat r =
                 (if data_start d + (r + 1) * bytes_per_row d + 4 > int (length ?buf)
                  then NaN
                  else le_f32_at ?buf (nat (data_start d + (r + 1) * bytes_per_row d))) \<and>
               map (?h 0) ?rows ! nat r =
                 (if data_start d + r * bytes_per_row d + 4 > int (length ?buf)
                  then NaN
                  else le_f32_at ?buf (nat (data_start d + r * bytes_per_row d)))"
    if r: "0 \<le> r \<and> r < num_rows d" for r
  proof -
    have o: "cell_offset d r 515 = data_start d + (r + 1) * bytes_per_row d"
      using off [of r] by simp
    have a: "map (?h 515) ?rows ! nat r = ?h 515 r" by (rule cell [OF r])
    have b: "map (?h 0) ?rows ! nat r = ?h 0 r" by (rule cell [OF r])
    have e515: "?h 515 r =
        (if data_start d + (r + 1) * bytes_per_row d + 4 > int (length ?buf)
         then NaN
         else le_f32_at ?buf (nat (data_start d + (r + 1) * bytes_per_row d)))"
      by (simp add: expected_cell_def cell_missing_def o)
    have e0: "?h 0 r =
        (if data_start d + r * bytes_per_row d + 4 > int (length ?buf)
         then NaN
         else le_f32_at ?buf (nat (data_start d + r * bytes_per_row d)))"
      by (simp add: expected_cell_def cell_missing_def off0)
    from a b e515 e0 show ?thesis by (simp only: simp_thms)
  qed
  have shift: "map (?h 515) ?rows ! nat r = map (?h 0) ?rows ! nat (r + 1)"
    if r: "0 \<le> r \<and> r + 1 < num_rows d" for r
  proof -
    have "map (?h 515) ?rows ! nat r = ?h 515 r" using r by (intro cell) simp
    also have "\<dots> = ?h 0 (r + 1)" using off [of r] by (intro expected_cell_same_offset) simp
    also have "\<dots> = map (?h 0) ?rows ! nat (r + 1)"
      using r by (intro cell [symmetric]) simp
    finally show ?thesis .
  qed
  have miss: "cell_missing ?buf d r c \<longleftrightarrow> r = num_rows d - 1 \<and> c = 515"
    if len: "int (length ?buf) = data_start d + num_rows d * bytes_per_row d"
      and rc: "0 \<le> r \<and> r < num_rows d \<and> 0 \<le> c \<and> c < 516" for r c
    using len rc assms(2,4) by (auto simp: cell_missing_def cell_offset_def)
  have exact: "(cell_missing ?buf d r c \<longleftrightarrow> r = num_rows d - 1 \<and> c = 515) \<and>
               (\<exists>col. map_of tbl c = Some col \<and>
                  col ! nat r =
                    (if r = num_rows d - 1 \<and> c = 515 then NaN
                     else le_f32_at ?buf (nat (data_start d + r * bytes_per_row d + c * 2 * 4))))"
    if len: "int (length ?buf) = data_start d + num_rows d * bytes_per_row d"
      and rc: "0 \<le> r \<and> r < num_rows d \<and> 0 \<le> c \<and> c < 516" for r c
  proof -
    note m = miss [OF len rc]
    have rr: "0 \<le> r \<and> r < num_rows d" using rc by simp
    have a: "map (?h c) ?rows ! nat r = ?h c r" by (rule cell [OF rr])
    have e: "?h c r =
               (if r = num_rows d - 1 \<and> c = 515 then NaN
                else le_f32_at ?buf (nat (data_start d + r * bytes_per_row d + c * 2 * 4)))"
      using m by (simp add: expected_cell_def offc)
    have v: "map (?h c) ?rows ! nat r =
               (if r = num_rows d - 1 \<and> c = 515 then NaN
                else le_f32_at ?buf (nat (data_start d + r * bytes_per_row d + c * 2 * 4)))"
      using a e by (simp only:)
    have "map_of tbl c = Some (map (?h c) ?rows)" using rc by (intro col) simp
    with v m show ?thesis by blast
  qed
  have final: "map (?h 515) ?rows ! nat (num_rows d - 1) = NaN"
    if len: "int (length ?buf) = data_start d + num_rows d * bytes_per_row d"
      and pos: "0 < num_rows d"
  proof -
    have "map (?h 515) ?rows ! nat (num_rows d - 1) = ?h 515 (num_rows d - 1)"
      using pos by (intro cell) simp
    moreover have "cell_missing ?buf d (num_rows d - 1) 515"
      using miss [OF len, of "num_rows d - 1" 515] pos by simp
    ultimately show ?thesis by (simp add: expected_cell_def)
  qed
  have inner: "parse p = Inr tbl \<and> map_of tbl 515 = Some (map (?h 515) ?rows) \<and>
       map_of tbl 0 = Some (map (?h 0) ?rows) \<and>
       (\<forall>r. 0 \<le> r \<and> r < num_rows d \<longrightarrow>
          map (?h 515) ?rows ! nat r =
            (if data_start d + (r + 1) * bytes_per_row d + 4 > int (length ?buf)
             then NaN
             else le_f32_at ?buf (nat (data_start d + (r + 1) * bytes_per_row d))) \<and>
          map (?h 0) ?rows ! nat r =
            (if data_start d + r * bytes_per_row d + 4 > int (length ?buf)
             then NaN
             else le_f32_at ?buf (nat (data_start d + r * bytes_per_row d)))) \<and>
       (\<forall>r. 0 \<le> r \<and> r + 1 < num_rows d \<longrightarrow>
          map (?h 515) ?rows ! nat r = map (?h 0) ?rows ! nat (r + 1)) \<and>
       (int (length ?buf) = data_start d + num_rows d * bytes_per_row d \<longrightarrow>
          (\<forall>r c. 0 \<le> r \<and> r < num_rows d \<and> 0 \<le> c \<and> c < 516 \<longrightarrow>
             (cell_missing ?buf d r c \<longleftrightarrow> r = num_rows d - 1 \<and> c = 515) \<and>
             (\<exists>col. map_of tbl c = Some col \<and>
                col ! nat r =
                  (if r = num_rows d - 1 \<and> c = 515 then NaN
                   else le_f32_at ?buf (nat (data_start d + r * bytes_per_row d + c * 2 * 4))))) \<and>
          (0 < num_rows d \<longrightarrow> map (?h 515) ?rows ! nat (num_rows d - 1) = NaN))"
    using tb c515 c0 bytes shift exact final by (intro conjI allI impI) blast+
  have "\<forall>r. cell_offset d r 515 = data_start d + r * bytes_per_row d + 4120 \<and>
              cell_offset d r 515 = data_start d + (r + 1) * bytes_per_row d \<and>
              cell_offset d r 515 = cell_offset d (r + 1) 0"
    using off by blast
  moreover from inner have "\<exists>tbl last first.
            parse p = Inr tbl \<and> map_of tbl 515 = Some last \<and> map_of tbl 0 = Some first \<and>
            (\<forall>r. 0 \<le> r \<and> r < num_rows d \<longrightarrow>
               last ! nat r =
                 (if data_start d + (r + 1) * bytes_per_row d + 4 > int (length ?buf)
                  then NaN
                  else le_f32_at ?buf (nat (data_start d + (r + 1) * bytes_per_row d))) \<and>
               first ! nat r =
                 (if data_start d + r * bytes_per_row d + 4 > int (length ?buf)
                  then NaN
                  else le_f32_at ?buf (nat (data_start d + r * bytes_per_row d)))) \<and>
            (\<forall>r. 0 \<le> r \<and> r + 1 < num_rows d \<longrightarrow> last ! nat r = first ! nat (r + 1)) \<and>
            (int (length ?buf) = data_start d + num_rows d * bytes_per_row d \<longrightarrow>
               (\<forall>r c. 0 \<le> r \<and> r < num_rows d \<and> 0 \<le> c \<and> c < 516 \<longrightarrow>
                  (cell_missing ?buf d r c \<longleftrightarrow> r = num_rows d - 1 \<and> c = 515) \<and>
                  (\<exists>col. map_of tbl c = Some col \<and>
                     col ! nat r =
                       (if r = num_rows d - 1 \<and> c = 515 then NaN
                        else le_f32_at ?buf
                               (nat (data_start d + r * bytes_per_row d + c * 2 * 4))))) \<and>
               (0 < num_rows d \<longrightarrow> last ! nat (num_rows d - 1) = NaN))"
    by (intro exI [of _ tbl] exI [of _ "map (?h 515) ?rows"] exI [of _ "map (?h 0) ?rows"])
  ultimately show ?thesis by (rule conjI)
qed

text \<open>
  The sample file, for claim C10: slot 515 of row 0 is the 37.5 stored at the start of
  row 1, which is also slot 0 of row 1; slot 0 of row 0 is 2500.0; and slot 515 of row 1
  is the missing cell.
\<close>

theorem interleaved_last_slot_witness:
  "cell_offset sample_v6_format 0 515 = 16456 + 4120 \<and>
   cell_missing sample_v6_file sample_v6_format 1 515 \<and>
   \<not> cell_missing sample_v6_file sample_v6_format 1 514 \<and>
   \<not> cell_missing sample_v6_file sample_v6_format 0 515 \<and>
   (\<exists>tbl last first.
      parse sample_v6_parser = Inr tbl \<and> map_of tbl 515 = Some last \<and> map_of tbl 0 = Some first \<and>
      last ! 0 = Finite (75 / 2) \<and> first ! 1 = Finite (75 / 2) \<and> first ! 0 = Finite 2500 \<and>
      last ! 0 = first ! 1 \<and> last ! 1 = NaN)"
proof -
  have h: "format_info sample_v6_parser = Some sample_v6_format"
    "interleaved sample_v6_format" "floats_per_row sample_v6_format = 1030"
    "bytes_per_row sample_v6_format = 1030 * 4" "0 \<le> data_start sample_v6_format"
    by (simp_all add: sample_v6_parser_def sample_v6_format_def)
  have d: "dl_data sample_v6_parser = sample_v6_file" "num_rows sample_v6_format = 2"
    by (simp_all add: sample_v6_parser_def sample_v6_format_def)
  have len: "int (length sample_v6_file) =
             data_start sample_v6_format + 2 * bytes_per_row sample_v6_format"
    by (simp add: length_sample_v6_file sample_v6_format_def)
  have row1: "sample_v6_file ! 20576 = 0x00" "sample_v6_file ! 20577 = 0x00"
    "sample_v6_file ! 20578 = 0x16" "sample_v6_file ! 20579 = 0x42"
    by (simp_all add: sample_v6_file_def nth_append)
  have f1: "le_f32_at sample_v6_file 20576 = Finite (75 / 2)"
    by (simp add: le_f32_at_def le_u32_at_def row1 f32_of_bits_def)
  have f0: "le_f32_at sample_v6_file 16456 = Finite 2500"
    by (simp add: le_f32_at_def le_u32_at_def sample_v6_file_nth f32_of_bits_def)
  note t = interleaved_last_slot [OF h, unfolded d]
  from t have o: "cell_offset sample_v6_format 0 515 = 16456 + 4120"
    by (simp add: sample_v6_format_def)
  from t len obtain tbl last first where p: "parse sample_v6_parser = Inr tbl"
      "map_of tbl 515 = Some last" "map_of tbl 0 = Some first"
    and bt: "\<And>r. 0 \<le> r \<and> r < 2 \<Longrightarrow>
               last ! nat r =
                 (if data_start sample_v6_format + (r + 1) * bytes_per_row sample_v6_format + 4
                       > int (length sample_v6_file)
                  then NaN
                  else le_f32_at sample_v6_file
                         (nat (data_start sample_v6_format
                               + (r + 1) * bytes_per_row sample_v6_format))) \<and>
               first ! nat r =
                 (if data_start sample_v6_format + r * bytes_per_row sample_v6_format + 4
                       > int (length sample_v6_file)
                  then NaN
                  else le_f32_at sample_v6_file
                         (nat (data_start sample_v6_format
                               + r * bytes_per_row sample_v6_format)))"
    and sh: "\<And>r. 0 \<le> r \<and> r + 1 < 2 \<Longrightarrow> last ! nat r = first ! nat (r + 1)"
    and ms: "\<And>r c. 0 \<le> r \<and> r < 2 \<and> 0 \<le> c \<and> c < 516 \<Longrightarrow>
               cell_missing sample_v6_file sample_v6_format r c \<longleftrightarrow> r = 2 - 1 \<and> c = 515"
    and fin: "last ! nat (2 - 1) = NaN"
    by auto
  from bt [of 0] have l0: "last ! 0 = Finite (75 / 2)" and fr0: "first ! 0 = Finite 2500"
    by (simp_all add: sample_v6_format_def length_sample_v6_file f1 f0)
  from bt [of 1] have fr1: "first ! 1 = Finite (75 / 2)"
    by (simp add: sample_v6_format_def length_sample_v6_file f1)
  from sh [of 0] have a: "last ! 0 = first ! 1" by simp
  from fin have b: "last ! 1 = NaN" by simp
  from ms [of 1 515] have m1: "cell_missing sample_v6_file sample_v6_format 1 515" by simp
  from ms [of 1 514] have m2: "\<not> cell_missing sample_v6_file sample_v6_format 1 514" by simp
  from ms [of 0 515] have m3: "\<not> cell_missing sample_v6_file sample_v6_format 0 515" by simp
  from o m1 m2 m3 p l0 fr1 fr0 a b show ?thesis by blast
qed

end
